theory Spec2Isabelle
  imports Main
begin

section \<open>Regular expressions as the tokenizer uses them\<close>

text \<open>
  The tokenizer of \<^verbatim>\<open>src/lexer/index.ts\<close> classifies the head of the remaining input with
  JavaScript regular expressions, all of the shape \<^verbatim>\<open>^(...)\<close> or \<^verbatim>\<open>^(...)\b\<close>, and reads
  capture group 1. A pattern is modelled by its syntax tree and matched by backtracking in
  JavaScript's order: the alternatives of \<^verbatim>\<open>|\<close> left to right, a greedy star longest first,
  a lazy star shortest first, and an iteration of a star that consumes nothing is dropped.

  Characters are HOL's 8-bit \<^typ>\<open>char\<close>, read as the code units U+0000 to U+00FF.
\<close>

datatype re =
    Eps
  | Cls bool "char list"
  | Seq re re
  | Alt re re
  | Star re
  | Lazy re
  | Bol
  | Eoi
  | Wb

text \<open>
  \<open>Cls True cs\<close> is the class \<^verbatim>\<open>[cs]\<close>, \<open>Cls False cs\<close> is \<^verbatim>\<open>[^cs]\<close>; \<open>Lazy\<close> is \<^verbatim>\<open>*?\<close>;
  \<open>Bol\<close>, \<open>Eoi\<close> and \<open>Wb\<close> are the assertions \<^verbatim>\<open>^\<close>, \<^verbatim>\<open>$\<close> and \<^verbatim>\<open>\b\<close> (no multiline flag).
  A matcher state is the character just consumed (\<open>None\<close> at the start of the input) and
  the text still to read.
\<close>

type_synonym mstate = "char option \<times> string"

definition is_word_char :: "char \<Rightarrow> bool" where
  "is_word_char c =
     (c \<in> set ''abcdefghijklmnopqrstuvwxyzABCDEFGHIJKLMNOPQRSTUVWXYZ0123456789_'')"

definition at_boundary :: "mstate \<Rightarrow> bool" where
  "at_boundary st =
     ((case fst st of None \<Rightarrow> False | Some c \<Rightarrow> is_word_char c)
      \<noteq> (case snd st of [] \<Rightarrow> False | c # _ \<Rightarrow> is_word_char c))"

text \<open>\<open>ms r st\<close> lists the states in which \<open>r\<close> can stop, in backtracking priority order.\<close>

function ms :: "re \<Rightarrow> mstate \<Rightarrow> mstate list" where
  "ms Eps st = [st]"
| "ms (Cls pos cs) st =
     (case snd st of [] \<Rightarrow> []
      | c # s \<Rightarrow> if (c \<in> set cs) = pos then [(Some c, s)] else [])"
| "ms (Seq a b) st = concat (map (ms b) (ms a st))"
| "ms (Alt a b) st = ms a st @ ms b st"
| "ms (Star a) st =
     concat (map (\<lambda>st'. if length (snd st') < length (snd st) then ms (Star a) st' else [])
                 (ms a st)) @ [st]"
| "ms (Lazy a) st =
     st # concat (map (\<lambda>st'. if length (snd st') < length (snd st) then ms (Lazy a) st' else [])
                      (ms a st))"
| "ms Bol st = (if fst st = None then [st] else [])"
| "ms Eoi st = (if snd st = [] then [st] else [])"
| "ms Wb st = (if at_boundary st then [st] else [])"
  by pat_completeness auto
termination
  by (relation "measures [\<lambda>(r, st). size r, \<lambda>(r, st). length (snd st)]") auto

text \<open>Pattern syntax: \<^verbatim>\<open>r+\<close>, \<^verbatim>\<open>r?\<close>, a literal character, literal text, \<^verbatim>\<open>a|b|c\<close>.\<close>

definition rplus :: "re \<Rightarrow> re" where
  "rplus r = Seq r (Star r)"

definition ropt :: "re \<Rightarrow> re" where
  "ropt r = Alt r Eps"

definition chr :: "char \<Rightarrow> re" where
  "chr c = Cls True [c]"

fun lit :: "string \<Rightarrow> re" where
  "lit [] = Eps"
| "lit (c # s) = Seq (chr c) (lit s)"

text \<open>
  \<^verbatim>\<open>xs.join('|')\<close> as a pattern: the empty list joins to the empty pattern, which matches
  the empty text.
\<close>

fun alts :: "re list \<Rightarrow> re" where
  "alts [] = Eps"
| "alts [r] = r"
| "alts (r # rs) = Alt r (alts rs)"

definition bslash :: char where "bslash = CHR 0x5C"
definition squote :: char where "squote = CHR 0x27"
definition dquote :: char where "dquote = CHR 0x22"
definition btick :: char where "btick = CHR 0x60"
definition newline :: char where "newline = CHR 0x0A"

text \<open>\<^verbatim>\<open>\s\<close> below U+0100, \<^verbatim>\<open>.\<close> (no line terminator), \<^verbatim>\<open>[^]\<close> and the digit classes.\<close>

definition space_chars :: "char list" where
  "space_chars = [CHR 0x09, CHR 0x0A, CHR 0x0B, CHR 0x0C, CHR 0x0D, CHR 0x20, CHR 0xA0]"

definition white :: re where "white = Cls True space_chars"
definition dot :: re where "dot = Cls False [CHR 0x0A, CHR 0x0D]"
definition anychar :: re where "anychar = Cls False []"
definition digit :: re where "digit = Cls True ''0123456789''"
definition hexdigit :: re where "hexdigit = Cls True ''0123456789abcdefABCDEF''"
definition bindigit :: re where "bindigit = Cls True ''01''"

text \<open>
  The flag \<^verbatim>\<open>i\<close>: a pattern character matches the characters with the same canonical
  (upper-case) form. Below U+0100 these are the ASCII letters and the accented letters
  U+00C0 to U+00DE and U+00E0 to U+00FE, without the signs U+00D7 and U+00F7.
\<close>

definition lower_chars :: "char list" where
  "lower_chars = ''abcdefghijklmnopqrstuvwxyz'' @
     [CHR 0xE0, CHR 0xE1, CHR 0xE2, CHR 0xE3, CHR 0xE4, CHR 0xE5, CHR 0xE6, CHR 0xE7,
      CHR 0xE8, CHR 0xE9, CHR 0xEA, CHR 0xEB, CHR 0xEC, CHR 0xED, CHR 0xEE, CHR 0xEF,
      CHR 0xF0, CHR 0xF1, CHR 0xF2, CHR 0xF3, CHR 0xF4, CHR 0xF5, CHR 0xF6, CHR 0xF8,
      CHR 0xF9, CHR 0xFA, CHR 0xFB, CHR 0xFC, CHR 0xFD, CHR 0xFE]"

definition upper_chars :: "char list" where
  "upper_chars = ''ABCDEFGHIJKLMNOPQRSTUVWXYZ'' @
     [CHR 0xC0, CHR 0xC1, CHR 0xC2, CHR 0xC3, CHR 0xC4, CHR 0xC5, CHR 0xC6, CHR 0xC7,
      CHR 0xC8, CHR 0xC9, CHR 0xCA, CHR 0xCB, CHR 0xCC, CHR 0xCD, CHR 0xCE, CHR 0xCF,
      CHR 0xD0, CHR 0xD1, CHR 0xD2, CHR 0xD3, CHR 0xD4, CHR 0xD5, CHR 0xD6, CHR 0xD8,
      CHR 0xD9, CHR 0xDA, CHR 0xDB, CHR 0xDC, CHR 0xDD, CHR 0xDE]"

definition icase :: "char \<Rightarrow> char list" where
  "icase c =
     (case map_of (zip lower_chars upper_chars) c of
        Some u \<Rightarrow> [c, u]
      | None \<Rightarrow>
          (case map_of (zip upper_chars lower_chars) c of
             Some l \<Rightarrow> [c, l]
           | None \<Rightarrow> [c]))"

text \<open>
  A compiled regular expression \<^verbatim>\<open>^(pat)\<close>, with \<^verbatim>\<open>\b\<close> after the group when
  \<open>wordBoundary\<close> is set.
\<close>

record regexp =
  pat :: re
  wordBoundary :: bool

text \<open>
  \<^verbatim>\<open>input.match(regex)\<close> followed by \<^verbatim>\<open>matches[1]\<close>: the text consumed by the group on the
  first backtracking path that also passes the trailing assertion.
\<close>

definition exec :: "regexp \<Rightarrow> string \<Rightarrow> string option" where
  "exec rx input =
     (case filter (\<lambda>st. if wordBoundary rx then at_boundary st else True)
                  (ms (pat rx) (None, input)) of
        [] \<Rightarrow> None
      | st # _ \<Rightarrow> Some (take (length input - length (snd st)) input))"

section \<open>The dialect configuration and the constructor\<close>

text \<open>
  \<^verbatim>\<open>cfg\<close> is untyped in the source (\<^verbatim>\<open>constructor(cfg: any)\<close>); a list that is missing is
  \<open>None\<close>. \<^verbatim>\<open>cfg.indentRegex\<close> is pattern source spliced into the placeholder pattern; it is
  taken as the pattern it denotes, and when it is missing the template literal writes the
  text \<^verbatim>\<open>undefined\<close> there.

  Reserved words, word characters and parens longer than one character are spliced into
  the pattern source as they are. They are modelled as literal text, which is what they
  denote when they contain no pattern syntax (\<open>plain\<close> below).
\<close>

record cfg =
  reservedWords :: "string list option"
  reservedToplevelWords :: "string list option"
  reservedNewlineWords :: "string list option"
  stringTypes :: "string list option"
  openParens :: "string list option"
  closeParens :: "string list option"
  indexedPlaceholderTypes :: "string list option"
  namedPlaceholderTypes :: "string list option"
  lineCommentTypes :: "string list option"
  wordChars :: "string list option"
  indentRegex :: "re option"

definition plain :: "string \<Rightarrow> bool" where
  "plain s = list_all (\<lambda>c. c \<notin> set ''^$.*+?()[]{}|'' \<and> c \<noteq> bslash) s"

datatype error = TypeError | SyntaxError

record tokenizer =
  WHITESPACE_REGEX :: "regexp option"
  NUMBER_REGEX :: "regexp option"
  OPERATOR_REGEX :: "regexp option"
  BLOCK_COMMENT_REGEX :: "regexp option"
  LINE_COMMENT_REGEX :: "regexp option"
  RESERVED_TOPLEVEL_REGEX :: "regexp option"
  RESERVED_NEWLINE_REGEX :: "regexp option"
  RESERVED_PLAIN_REGEX :: "regexp option"
  WORD_REGEX :: "regexp option"
  STRING_REGEX :: "regexp option"
  OPEN_PAREN_REGEX :: "regexp option"
  CLOSE_PAREN_REGEX :: "regexp option"
  INDEXED_PLACEHOLDER_REGEX :: "regexp option"
  IDENT_NAMED_PLACEHOLDER_REGEX :: "regexp option"
  STRING_NAMED_PLACEHOLDER_REGEX :: "regexp option"

text \<open>\<^verbatim>\<open>/^(\s+)/\<close>\<close>

definition whitespace_regex :: regexp where
  "whitespace_regex = \<lparr>pat = rplus white, wordBoundary = False\<rparr>"

text \<open>\<^verbatim>\<open>/^([0-9]+(\.[0-9]+)?|0x[0-9a-fA-F]+|0b[01]+)\b/\<close>\<close>

definition number_regex :: regexp where
  "number_regex =
     \<lparr>pat = Alt (Seq (rplus digit) (ropt (Seq (chr CHR ''.'') (rplus digit))))
               (Alt (Seq (lit ''0x'') (rplus hexdigit)) (Seq (lit ''0b'') (rplus bindigit))),
      wordBoundary = True\<rparr>"

text \<open>\<^verbatim>\<open>/^(!=|<>|==|<=|>=|!<|!>|\|\||::|->>|->|~~\*|~~|!~~\*|!~~|~\*|!~\*|!~|.)/\<close>\<close>

definition operator_regex :: regexp where
  "operator_regex =
     \<lparr>pat = alts (map lit [''!='', ''<>'', ''=='', ''<='', ''>='', ''!<'', ''!>'', ''||'', ''::'',
                           ''->>'', ''->'', ''~~*'', ''~~'', ''!~~*'', ''!~~'', ''~*'', ''!~*'',
                           ''!~''] @ [dot]),
      wordBoundary = False\<rparr>"

text \<open>\<^verbatim>\<open>/^(\/\*[^]*?(?:\*\/|$))/\<close>\<close>

definition comment_end :: re where
  "comment_end = Alt (lit ''*/'') Eoi"

definition block_comment_regex :: regexp where
  "block_comment_regex =
     \<lparr>pat = Seq (lit ''/*'') (Seq (Lazy anychar) comment_end), wordBoundary = False\<rparr>"

text \<open>
  \<^verbatim>\<open>new RegExp(`^((?:${lineCommentTypes.map(c => escapeRegExp(c)).join('|')}).*?(?:\n|$))`)\<close>.
  \<^verbatim>\<open>escapeRegExp\<close> makes every prefix literal text; \<^verbatim>\<open>.map\<close> of a missing list throws.
\<close>

definition createLineCommentRegex :: "string list option \<Rightarrow> error + regexp" where
  "createLineCommentRegex types =
     (case types of
        None \<Rightarrow> Inl TypeError
      | Some ts \<Rightarrow>
          Inr \<lparr>pat = Seq (alts (map lit ts)) (Seq (Lazy dot) (Alt (chr newline) Eoi)),
               wordBoundary = False\<rparr>)"

text \<open>
  \<^verbatim>\<open>reservedWords.join('|').replace(/ /g, '\\s+')\<close>, then \<^verbatim>\<open>new RegExp(`^(${...})\\b`, 'i')\<close>:
  every space of a word stands for \<^verbatim>\<open>\s+\<close>, every other character for itself in either case.
\<close>

fun reservedWordPattern :: "string \<Rightarrow> re" where
  "reservedWordPattern [] = Eps"
| "reservedWordPattern (c # s) =
     Seq (if c = CHR '' '' then rplus white else Cls True (icase c)) (reservedWordPattern s)"

definition createReservedWordRegex :: "string list option \<Rightarrow> error + regexp" where
  "createReservedWordRegex words =
     (case words of
        None \<Rightarrow> Inl TypeError
      | Some ws \<Rightarrow> Inr \<lparr>pat = alts (map reservedWordPattern ws), wordBoundary = True\<rparr>)"

text \<open>
  \<^verbatim>\<open>createWordRegex(specialChars: string[] = [])\<close> returns
  \<^verbatim>\<open>new RegExp(`^(${specialChars.join('|')})`)\<close>; a missing list is the default \<^verbatim>\<open>[]\<close>.
\<close>

definition createWordRegex :: "string list option \<Rightarrow> regexp" where
  "createWordRegex specialChars =
     \<lparr>pat = alts (map lit (case specialChars of None \<Rightarrow> [] | Some cs \<Rightarrow> cs)),
      wordBoundary = False\<rparr>"

text \<open>The table \<^verbatim>\<open>patterns\<close> of \<^verbatim>\<open>createStringPattern\<close>, one entry per string type.\<close>

definition escape_seq :: "char list \<Rightarrow> re" where
  "escape_seq excluded = Seq (chr bslash) (Seq dot (Star (Cls False excluded)))"

definition string_end :: "char \<Rightarrow> re" where
  "string_end closing = Alt (chr closing) Eoi"

definition quoted :: "re \<Rightarrow> char list \<Rightarrow> char \<Rightarrow> re" where
  "quoted opening excluded closing =
     rplus (Seq opening
            (Seq (Star (Cls False excluded))
              (Seq (Star (escape_seq excluded)) (string_end closing))))"

definition bracket_segment :: "char \<Rightarrow> re" where
  "bracket_segment opening =
     Seq (chr opening) (Seq (Star (Cls False '']'')) (Alt Eoi (chr CHR '']'')))"

definition patterns :: "string \<Rightarrow> re option" where
  "patterns t =
     (if t = [btick, btick] then
        Some (rplus (Seq (chr btick) (Seq (Star (Cls False [btick])) (Alt Eoi (chr btick)))))
      else if t = ''[]'' then
        Some (Seq (bracket_segment CHR ''['') (Star (bracket_segment CHR '']'')))
      else if t = [dquote, dquote] then
        Some (quoted (chr dquote) [dquote, bslash] dquote)
      else if t = [squote, squote] then
        Some (quoted (chr squote) [squote, bslash] squote)
      else if t = [CHR ''N'', squote, squote] then
        Some (quoted (lit [CHR ''N'', squote]) [CHR ''N'', squote, bslash] squote)
      else None)"

text \<open>
  \<^verbatim>\<open>stringTypes.map(t => patterns[t]).join('|')\<close>: an entry that is not in the table is
  \<^verbatim>\<open>undefined\<close>, which \<^verbatim>\<open>join\<close> writes as the empty text. (The names every object
  inherits, such as \<^verbatim>\<open>constructor\<close>, are not string types of any dialect and are left out.)
\<close>

definition createStringPattern :: "string list option \<Rightarrow> error + re" where
  "createStringPattern types =
     (case types of
        None \<Rightarrow> Inl TypeError
      | Some ts \<Rightarrow> Inr (alts (map (\<lambda>t. case patterns t of None \<Rightarrow> Eps | Some r \<Rightarrow> r) ts)))"

definition createStringRegex :: "string list option \<Rightarrow> error + regexp" where
  "createStringRegex types =
     (case createStringPattern types of
        Inl e \<Rightarrow> Inl e
      | Inr p \<Rightarrow> Inr \<lparr>pat = p, wordBoundary = False\<rparr>)"

text \<open>
  \<^verbatim>\<open>escapeParen\<close>: one character is escaped, a longer word (or the empty text) becomes
  \<^verbatim>\<open>\b word \b\<close>; \<^verbatim>\<open>createParenRegex\<close> compiles the alternatives with the flag \<^verbatim>\<open>i\<close>.
\<close>

definition liti :: "string \<Rightarrow> re" where
  "liti s = foldr (\<lambda>c r. Seq (Cls True (icase c)) r) s Eps"

definition escapeParen :: "string \<Rightarrow> re" where
  "escapeParen paren =
     (if length paren = 1 then liti paren else Seq Wb (Seq (liti paren) Wb))"

definition createParenRegex :: "string list option \<Rightarrow> error + regexp" where
  "createParenRegex parens =
     (case parens of
        None \<Rightarrow> Inl TypeError
      | Some ps \<Rightarrow> Inr \<lparr>pat = alts (map escapeParen ps), wordBoundary = False\<rparr>)"

text \<open>
  \<^verbatim>\<open>createPlaceholderRegex(types, pattern)\<close>: \<^verbatim>\<open>false\<close> when \<^verbatim>\<open>isEmpty(types)\<close> (missing or
  empty), else \<^verbatim>\<open>new RegExp(`^((?:${typesRegex})(?:${pattern}))`)\<close>.
\<close>

definition createPlaceholderRegex :: "string list option \<Rightarrow> re \<Rightarrow> regexp option" where
  "createPlaceholderRegex types pattern =
     (case types of
        None \<Rightarrow> None
      | Some ts \<Rightarrow>
          if ts = [] then None
          else Some \<lparr>pat = Seq (alts (map lit ts)) pattern, wordBoundary = False\<rparr>)"

definition constructor :: "cfg \<Rightarrow> error + tokenizer" where
  "constructor c =
     (case createLineCommentRegex (lineCommentTypes c) of Inl e \<Rightarrow> Inl e | Inr lineComment \<Rightarrow>
      case createReservedWordRegex (reservedToplevelWords c) of Inl e \<Rightarrow> Inl e | Inr toplevel \<Rightarrow>
      case createReservedWordRegex (reservedNewlineWords c) of Inl e \<Rightarrow> Inl e | Inr newl \<Rightarrow>
      case createReservedWordRegex (reservedWords c) of Inl e \<Rightarrow> Inl e | Inr plainw \<Rightarrow>
      case createStringRegex (stringTypes c) of Inl e \<Rightarrow> Inl e | Inr str \<Rightarrow>
      case createParenRegex (openParens c) of Inl e \<Rightarrow> Inl e | Inr openp \<Rightarrow>
      case createParenRegex (closeParens c) of Inl e \<Rightarrow> Inl e | Inr closep \<Rightarrow>
      case createStringPattern (stringTypes c) of Inl e \<Rightarrow> Inl e | Inr strpat \<Rightarrow>
        Inr \<lparr>WHITESPACE_REGEX = Some whitespace_regex,
             NUMBER_REGEX = Some number_regex,
             OPERATOR_REGEX = Some operator_regex,
             BLOCK_COMMENT_REGEX = Some block_comment_regex,
             LINE_COMMENT_REGEX = Some lineComment,
             RESERVED_TOPLEVEL_REGEX = Some toplevel,
             RESERVED_NEWLINE_REGEX = Some newl,
             RESERVED_PLAIN_REGEX = Some plainw,
             WORD_REGEX = Some (createWordRegex (wordChars c)),
             STRING_REGEX = Some str,
             OPEN_PAREN_REGEX = Some openp,
             CLOSE_PAREN_REGEX = Some closep,
             INDEXED_PLACEHOLDER_REGEX =
               createPlaceholderRegex (indexedPlaceholderTypes c) (Star digit),
             IDENT_NAMED_PLACEHOLDER_REGEX =
               createPlaceholderRegex (namedPlaceholderTypes c)
                 (case indentRegex c of None \<Rightarrow> lit ''undefined'' | Some r \<Rightarrow> r),
             STRING_NAMED_PLACEHOLDER_REGEX =
               createPlaceholderRegex (namedPlaceholderTypes c) strpat\<rparr>)"

section \<open>Tokens and classifiers\<close>

text \<open>
  The constants of \<^verbatim>\<open>./token-types\<close> are one constructor each. A token is the object
  \<^verbatim>\<open>{ type, value, key }\<close> of \<^verbatim>\<open>getTokenOnFirstMatch\<close>, to which \<^verbatim>\<open>tokenize\<close> adds \<^verbatim>\<open>position\<close>.
\<close>

datatype tokenType =
    WHITESPACE | WORD | STRING | RESERVED | RESERVED_TOPLEVEL | RESERVED_NEWLINE
  | OPERATOR | OPEN_PAREN | CLOSE_PAREN | LINE_COMMENT | BLOCK_COMMENT | NUMBER | PLACEHOLDER

record token =
  type :: tokenType
  "value" :: string
  key :: "string option"
  position :: "(nat \<times> nat) option"

text \<open>
  \<^verbatim>\<open>getTokenOnFirstMatch\<close>: \<^verbatim>\<open>null\<close> for a regex that is \<^verbatim>\<open>false\<close>, \<^verbatim>\<open>undefined\<close> when nothing
  matches (both are \<open>None\<close>: the callers only test them with \<^verbatim>\<open>||\<close>), else the token of
  group 1. A token is an object, hence truthy, also when its value is empty.
\<close>

definition getTokenOnFirstMatch :: "string \<Rightarrow> tokenType \<Rightarrow> regexp option \<Rightarrow> token option" where
  "getTokenOnFirstMatch input ty regex =
     (case regex of
        None \<Rightarrow> None
      | Some rx \<Rightarrow>
          (case exec rx input of
             None \<Rightarrow> None
           | Some v \<Rightarrow> Some \<lparr>type = ty, value = v, key = None, position = None\<rparr>))"

definition getWhitespaceToken :: "tokenizer \<Rightarrow> string \<Rightarrow> token option" where
  "getWhitespaceToken T input = getTokenOnFirstMatch input WHITESPACE (WHITESPACE_REGEX T)"

definition getLineCommentToken :: "tokenizer \<Rightarrow> string \<Rightarrow> token option" where
  "getLineCommentToken T input = getTokenOnFirstMatch input LINE_COMMENT (LINE_COMMENT_REGEX T)"

definition getBlockCommentToken :: "tokenizer \<Rightarrow> string \<Rightarrow> token option" where
  "getBlockCommentToken T input = getTokenOnFirstMatch input BLOCK_COMMENT (BLOCK_COMMENT_REGEX T)"

definition getStringToken :: "tokenizer \<Rightarrow> string \<Rightarrow> token option" where
  "getStringToken T input = getTokenOnFirstMatch input STRING (STRING_REGEX T)"

definition getOpenParenToken :: "tokenizer \<Rightarrow> string \<Rightarrow> token option" where
  "getOpenParenToken T input = getTokenOnFirstMatch input OPEN_PAREN (OPEN_PAREN_REGEX T)"

definition getCloseParenToken :: "tokenizer \<Rightarrow> string \<Rightarrow> token option" where
  "getCloseParenToken T input = getTokenOnFirstMatch input CLOSE_PAREN (CLOSE_PAREN_REGEX T)"

definition getNumberToken :: "tokenizer \<Rightarrow> string \<Rightarrow> token option" where
  "getNumberToken T input = getTokenOnFirstMatch input NUMBER (NUMBER_REGEX T)"

definition getOperatorToken :: "tokenizer \<Rightarrow> string \<Rightarrow> token option" where
  "getOperatorToken T input = getTokenOnFirstMatch input OPERATOR (OPERATOR_REGEX T)"

definition getToplevelReservedToken :: "tokenizer \<Rightarrow> string \<Rightarrow> token option" where
  "getToplevelReservedToken T input =
     getTokenOnFirstMatch input RESERVED_TOPLEVEL (RESERVED_TOPLEVEL_REGEX T)"

definition getNewlineReservedToken :: "tokenizer \<Rightarrow> string \<Rightarrow> token option" where
  "getNewlineReservedToken T input =
     getTokenOnFirstMatch input RESERVED_NEWLINE (RESERVED_NEWLINE_REGEX T)"

definition getPlainReservedToken :: "tokenizer \<Rightarrow> string \<Rightarrow> token option" where
  "getPlainReservedToken T input = getTokenOnFirstMatch input RESERVED (RESERVED_PLAIN_REGEX T)"

definition getWordToken :: "tokenizer \<Rightarrow> string \<Rightarrow> token option" where
  "getWordToken T input = getTokenOnFirstMatch input WORD (WORD_REGEX T)"

text \<open>\<^verbatim>\<open>a || b\<close> on classifier results: the first token wins.\<close>

definition orElse :: "'a option \<Rightarrow> 'a option \<Rightarrow> 'a option" where
  "orElse a b = (case a of None \<Rightarrow> b | Some t \<Rightarrow> Some t)"

definition getCommentToken :: "tokenizer \<Rightarrow> string \<Rightarrow> token option" where
  "getCommentToken T input = orElse (getLineCommentToken T input) (getBlockCommentToken T input)"

text \<open>
  \<^verbatim>\<open>getReservedWordToken\<close>: nothing after a token whose value is exactly \<^verbatim>\<open>.\<close>; the test
  \<^verbatim>\<open>previousToken && previousToken.value && previousToken.value === '.'\<close> is that equality.
\<close>

definition getReservedWordToken :: "tokenizer \<Rightarrow> string \<Rightarrow> token option \<Rightarrow> token option" where
  "getReservedWordToken T input previousToken =
     (if (case previousToken of None \<Rightarrow> False | Some p \<Rightarrow> value p = ''.'') then None
      else orElse (getToplevelReservedToken T input)
             (orElse (getNewlineReservedToken T input) (getPlainReservedToken T input)))"

section \<open>Placeholders and their keys\<close>

text \<open>
  \<^verbatim>\<open>new RegExp(escapeRegExp('\\') + quoteChar, 'g')\<close> in \<^verbatim>\<open>getEscapedPlaceholderKey\<close>. The
  caller passes \<^verbatim>\<open>v.slice(-1)\<close>, at most one character, and the character is not escaped:
  the pattern source is \<^verbatim>\<open>\\\<close> followed by it. A quantifier applies to the backslash,
  \<^verbatim>\<open>|\<close> adds an empty alternative, and an opening or closing parenthesis, an opening bracket
  or a backslash leave a pattern that does not parse, for which \<^verbatim>\<open>new RegExp\<close> throws.
\<close>

definition quoteCharRegex :: "char option \<Rightarrow> error + re" where
  "quoteCharRegex quoteChar =
     (case quoteChar of
        None \<Rightarrow> Inr (chr bslash)
      | Some q \<Rightarrow>
          if q \<in> set ''()['' \<or> q = bslash then Inl SyntaxError
          else if q = CHR ''*'' then Inr (Star (chr bslash))
          else if q = CHR ''+'' then Inr (rplus (chr bslash))
          else if q = CHR ''?'' then Inr (ropt (chr bslash))
          else if q = CHR ''|'' then Inr (Alt (chr bslash) Eps)
          else if q = CHR ''.'' then Inr (Seq (chr bslash) dot)
          else if q = CHR ''^'' then Inr (Seq (chr bslash) Bol)
          else if q = CHR ''$'' then Inr (Seq (chr bslash) Eoi)
          else Inr (Seq (chr bslash) (chr q)))"

text \<open>
  \<^verbatim>\<open>text.replace(regex, rep)\<close> with the flag \<^verbatim>\<open>g\<close>: the leftmost match from the current
  index is replaced; after an empty match the index moves one character on. \<open>p\<close> is the
  character before the current index.
\<close>

function replaceAll :: "re \<Rightarrow> string \<Rightarrow> char option \<Rightarrow> string \<Rightarrow> string" where
  "replaceAll r rep p [] = (if ms r (p, []) = [] then [] else rep)"
| "replaceAll r rep p (c # s) =
     (case ms r (p, c # s) of
        [] \<Rightarrow> c # replaceAll r rep (Some c) s
      | st # _ \<Rightarrow>
          if length (snd st) < length (c # s) then rep @ replaceAll r rep (fst st) (snd st)
          else rep @ c # replaceAll r rep (Some c) s)"
  by pat_completeness auto
termination
  by (relation "measure (\<lambda>(r, rep, p, s). length s)") auto

definition getEscapedPlaceholderKey :: "string \<Rightarrow> char option \<Rightarrow> error + string" where
  "getEscapedPlaceholderKey k quoteChar =
     (case quoteCharRegex quoteChar of
        Inl e \<Rightarrow> Inl e
      | Inr r \<Rightarrow> Inr (replaceAll r (case quoteChar of None \<Rightarrow> [] | Some q \<Rightarrow> [q]) None k))"

definition getPlaceholderTokenWithKey ::
  "string \<Rightarrow> regexp option \<Rightarrow> (string \<Rightarrow> error + string) \<Rightarrow> error + token option" where
  "getPlaceholderTokenWithKey input regex parseKey =
     (case getTokenOnFirstMatch input PLACEHOLDER regex of
        None \<Rightarrow> Inr None
      | Some t \<Rightarrow>
          (case parseKey (value t) of
             Inl e \<Rightarrow> Inl e
           | Inr k \<Rightarrow> Inr (Some (t\<lparr>key := Some k\<rparr>))))"

text \<open>\<^verbatim>\<open>v.slice(1)\<close>, \<^verbatim>\<open>v.slice(2, -1)\<close> and \<^verbatim>\<open>v.slice(-1)\<close>.\<close>

definition slice1 :: "string \<Rightarrow> string" where
  "slice1 v = drop 1 v"

definition slice2m1 :: "string \<Rightarrow> string" where
  "slice2m1 v = take (length v - 3) (drop 2 v)"

definition slicem1 :: "string \<Rightarrow> char option" where
  "slicem1 v = (if v = [] then None else Some (last v))"

definition getIdentNamedPlaceholderToken :: "tokenizer \<Rightarrow> string \<Rightarrow> error + token option" where
  "getIdentNamedPlaceholderToken T input =
     getPlaceholderTokenWithKey input (IDENT_NAMED_PLACEHOLDER_REGEX T) (\<lambda>v. Inr (slice1 v))"

definition getStringNamedPlaceholderToken :: "tokenizer \<Rightarrow> string \<Rightarrow> error + token option" where
  "getStringNamedPlaceholderToken T input =
     getPlaceholderTokenWithKey input (STRING_NAMED_PLACEHOLDER_REGEX T)
       (\<lambda>v. getEscapedPlaceholderKey (slice2m1 v) (slicem1 v))"

definition getIndexedPlaceholderToken :: "tokenizer \<Rightarrow> string \<Rightarrow> error + token option" where
  "getIndexedPlaceholderToken T input =
     getPlaceholderTokenWithKey input (INDEXED_PLACEHOLDER_REGEX T) (\<lambda>v. Inr (slice1 v))"

text \<open>\<^verbatim>\<open>a || b\<close> where evaluating \<^verbatim>\<open>a\<close> may throw: the exception leaves the chain.\<close>

definition orElseE :: "error + 'a option \<Rightarrow> error + 'a option \<Rightarrow> error + 'a option" where
  "orElseE a b = (case a of Inl e \<Rightarrow> Inl e | Inr None \<Rightarrow> b | Inr (Some t) \<Rightarrow> Inr (Some t))"

definition getPlaceholderToken :: "tokenizer \<Rightarrow> string \<Rightarrow> error + token option" where
  "getPlaceholderToken T input =
     orElseE (getIdentNamedPlaceholderToken T input)
       (orElseE (getStringNamedPlaceholderToken T input) (getIndexedPlaceholderToken T input))"

section \<open>getNextToken and tokenize\<close>

definition getNextToken :: "tokenizer \<Rightarrow> string \<Rightarrow> token option \<Rightarrow> error + token option" where
  "getNextToken T input previousToken =
     orElseE (Inr (getWhitespaceToken T input))
    (orElseE (Inr (getCommentToken T input))
    (orElseE (Inr (getStringToken T input))
    (orElseE (Inr (getOpenParenToken T input))
    (orElseE (Inr (getCloseParenToken T input))
    (orElseE (getPlaceholderToken T input)
    (orElseE (Inr (getNumberToken T input))
    (orElseE (Inr (getReservedWordToken T input previousToken))
    (orElseE (Inr (getWordToken T input))
             (Inr (getOperatorToken T input))))))))))"

text \<open>
  The loop of \<^verbatim>\<open>tokenize\<close>, with its variables \<^verbatim>\<open>input\<close>, \<^verbatim>\<open>token\<close>, \<^verbatim>\<open>lastPosition\<close> and
  \<^verbatim>\<open>tokens\<close> as arguments. The loop runs while the input is not empty and need not end, so
  the model counts iterations: \<open>None\<close> means the loop is still running when the count is
  used up. An exception of \<^verbatim>\<open>getNextToken\<close> ends the call, and so does the \<^verbatim>\<open>TypeError\<close> of
  \<^verbatim>\<open>token.position = ...\<close> when no classifier gave a token.
\<close>

fun tokenize_loop ::
  "nat \<Rightarrow> tokenizer \<Rightarrow> string \<Rightarrow> token option \<Rightarrow> nat \<Rightarrow> token list \<Rightarrow> (error + token list) option"
where
  "tokenize_loop 0 T input tok lastPosition tokens = None"
| "tokenize_loop (Suc n) T input tok lastPosition tokens =
     (if input = [] then Some (Inr tokens)
      else case getNextToken T input tok of
             Inl e \<Rightarrow> Some (Inl e)
           | Inr None \<Rightarrow> Some (Inl TypeError)
           | Inr (Some t) \<Rightarrow>
               (let t' = t\<lparr>position := Some (lastPosition, lastPosition + length (value t))\<rparr>
                in tokenize_loop n T (drop (length (value t)) input) (Some t')
                     (lastPosition + length (value t)) (tokens @ [t'])))"

definition tokenize :: "nat \<Rightarrow> tokenizer \<Rightarrow> string \<Rightarrow> (error + token list) option" where
  "tokenize n T input = tokenize_loop n T input None 0 []"

text \<open>\<^verbatim>\<open>new Tokenizer(cfg).tokenize(input)\<close>, the loop cut after \<open>n\<close> iterations.\<close>

definition run :: "nat \<Rightarrow> cfg \<Rightarrow> string \<Rightarrow> (error + token list) option" where
  "run n c input = (case constructor c of Inl e \<Rightarrow> Some (Inl e) | Inr T \<Rightarrow> tokenize n T input)"

section \<open>Dialects and inputs to run the tokenizer on\<close>

text \<open>
  A small dialect after the usual SQL settings: it sets no \<^verbatim>\<open>wordChars\<close>, and its identifier
  pattern for named placeholders is \<^verbatim>\<open>[a-zA-Z0-9._$]+\<close>.
\<close>

definition sampleConfig :: cfg where
  "sampleConfig =
     \<lparr>reservedWords = Some [''AS'', ''ON''],
      reservedToplevelWords = Some [''SELECT'', ''FROM''],
      reservedNewlineWords = Some [''AND'', ''OR''],
      stringTypes = Some [[dquote, dquote], [CHR ''N'', squote, squote], [squote, squote],
                          [btick, btick]],
      openParens = Some [''('', ''CASE''],
      closeParens = Some ['')'', ''END''],
      indexedPlaceholderTypes = Some [''?''],
      namedPlaceholderTypes = Some [''@'', '':''],
      lineCommentTypes = Some [''#'', ''--''],
      wordChars = None,
      indentRegex = Some (rplus (Cls True
        ''abcdefghijklmnopqrstuvwxyzABCDEFGHIJKLMNOPQRSTUVWXYZ0123456789._$''))\<rparr>"

definition sampleTokenizer :: tokenizer where
  "sampleTokenizer = (case constructor sampleConfig of Inr T \<Rightarrow> T)"

text \<open>The same dialect with the word characters \<^verbatim>\<open>@\<close> and \<^verbatim>\<open>#\<close>.\<close>

definition wordCharsConfig :: cfg where
  "wordCharsConfig = sampleConfig\<lparr>wordChars := Some [''@'', ''#'']\<rparr>"

text \<open>The same dialect with \<^verbatim>\<open>/\<close> as a line-comment prefix.\<close>

definition slashCommentConfig :: cfg where
  "slashCommentConfig = sampleConfig\<lparr>lineCommentTypes := Some [''--'', ''/'']\<rparr>"

text \<open>The same dialect with no line-comment prefix at all.\<close>

definition noLineCommentConfig :: cfg where
  "noLineCommentConfig = sampleConfig\<lparr>lineCommentTypes := Some []\<rparr>"


text \<open>
  The same dialect with \<^verbatim>\<open>@\<close> as its line-comment prefix, and the same dialect with the
  identifier pattern \<^verbatim>\<open>[^\s]+\<close>, which reads quotes too.
\<close>

definition atCommentConfig :: cfg where
  "atCommentConfig = sampleConfig\<lparr>lineCommentTypes := Some [''@'']\<rparr>"

definition quoteIdentConfig :: cfg where
  "quoteIdentConfig = sampleConfig\<lparr>indentRegex := Some (rplus (Cls False space_chars))\<rparr>"

text \<open>
  Tokens as the classifiers make them: the reserved word \<^verbatim>\<open>SELECT\<close>, a previous token whose
  value is \<^verbatim>\<open>.\<close>, and a token of length zero, which a pattern that matches the empty text
  gives.
\<close>

definition selectToken :: token where
  "selectToken =
     \<lparr>type = RESERVED_TOPLEVEL, value = ''SELECT'', key = None, position = None\<rparr>"

definition dot_token :: token where
  "dot_token = \<lparr>type = OPERATOR, value = ''.'', key = None, position = None\<rparr>"

definition zeroToken :: "tokenType \<Rightarrow> token" where
  "zeroToken ty = \<lparr>type = ty, value = [], key = None, position = None\<rparr>"

text \<open>
  The string-named placeholder of claim C5: \<^verbatim>\<open>@\<close>, quote, \<^verbatim>\<open>a\<close>, backslash, quote, \<^verbatim>\<open>b\<close>,
  quote.
\<close>

definition quotedPlaceholder :: string where
  "quotedPlaceholder = [CHR ''@'', squote, CHR ''a'', bslash, squote, CHR ''b'', squote]"

section \<open>Notions the claims are stated with\<close>

text \<open>
  \<open>covers p ts e\<close>: the position ranges of \<open>ts\<close> follow one another from \<open>p\<close> to \<open>e\<close>, each
  as long as its token's value.
\<close>

fun covers :: "nat \<Rightarrow> token list \<Rightarrow> nat \<Rightarrow> bool" where
  "covers p [] e = (p = e)"
| "covers p (t # ts) e =
     (case position t of
        None \<Rightarrow> False
      | Some (a, b) \<Rightarrow> a = p \<and> b = a + length (value t) \<and> covers b ts e)"

text \<open>
  The first answer of a list of classifier results, in the list's order, and the test of
  \<^verbatim>\<open>getReservedWordToken\<close> on the previous token.
\<close>

definition firstMatch :: "(error + token option) list \<Rightarrow> error + token option" where
  "firstMatch rs = foldr orElseE rs (Inr None)"

definition afterDot :: "token option \<Rightarrow> bool" where
  "afterDot previousToken =
     (case previousToken of None \<Rightarrow> False | Some p \<Rightarrow> value p = ''.'')"

text \<open>The body of a block comment: up to the first \<^verbatim>\<open>*/\<close>, or all of the text.\<close>

fun comment_body :: "string \<Rightarrow> string" where
  "comment_body [] = []"
| "comment_body [c] = [c]"
| "comment_body (c # d # s) =
     (if c = CHR ''*'' \<and> d = CHR ''/'' then [c, d] else c # comment_body (d # s))"

text \<open>
  \<open>has_close s\<close>: the text contains \<^verbatim>\<open>*/\<close>. \<open>unterminated ex s\<close>: \<open>s\<close> is the body of a
  quoted string that never closes, that is, no character of \<open>ex\<close> (the quote and the
  backslash) stands in \<open>s\<close> outside an escape, and every backslash escapes a character
  that is not a line terminator.
\<close>

fun has_close :: "string \<Rightarrow> bool" where
  "has_close (c # d # s) = ((c = CHR ''*'' \<and> d = CHR ''/'') \<or> has_close (d # s))"
| "has_close _ = False"

fun unterminated :: "char list \<Rightarrow> string \<Rightarrow> bool" where
  "unterminated ex [] = True"
| "unterminated ex (c # s) =
     (if c = bslash
      then (case s of
              [] \<Rightarrow> False
            | d # s' \<Rightarrow> d \<noteq> CHR 0x0A \<and> d \<noteq> CHR 0x0D \<and> unterminated ex s')
      else c \<notin> set ex \<and> unterminated ex s)"

text \<open>
  What "decoding every backslash-quote pair" means, in the words of claim C5: each
  backslash followed by the quote character becomes that quote character.
\<close>

fun unescape :: "char \<Rightarrow> string \<Rightarrow> string" where
  "unescape q [] = []"
| "unescape q [c] = [c]"
| "unescape q (c # d # s) =
     (if c = bslash \<and> d = q then q # unescape q s else c # unescape q (d # s))"

text \<open>
  \<open>quoted_key k\<close>: \<open>k\<close> can stand between the single quotes of a string-named
  placeholder, that is, a quote or a backslash stands in \<open>k\<close> only as the character a
  backslash escapes, and every backslash escapes a character that is not a line terminator.
\<close>

definition quoted_key :: "string \<Rightarrow> bool" where
  "quoted_key k = unterminated [squote, bslash] k"

text \<open>
  A configuration whose unescaped texts are free of pattern syntax: the reserved words,
  the word characters and the parens of more than one character.
\<close>

definition plain_words :: "string list option \<Rightarrow> bool" where
  "plain_words ws = (case ws of None \<Rightarrow> True | Some xs \<Rightarrow> list_all plain xs)"

definition plain_parens :: "string list option \<Rightarrow> bool" where
  "plain_parens ps =
     (case ps of
        None \<Rightarrow> True
      | Some xs \<Rightarrow> list_all (\<lambda>p. length p = 1 \<or> plain p) xs)"

definition plain_cfg :: "cfg \<Rightarrow> bool" where
  "plain_cfg c =
     (plain_words (reservedWords c) \<and> plain_words (reservedToplevelWords c) \<and>
      plain_words (reservedNewlineWords c) \<and> plain_words (wordChars c) \<and>
      plain_parens (openParens c) \<and> plain_parens (closeParens c))"


text \<open>\<open>consuming r\<close>: by its shape, \<open>r\<close> cannot match without reading a character.\<close>

fun consuming :: "re \<Rightarrow> bool" where
  "consuming (Cls pos cs) = True"
| "consuming (Seq a b) = (consuming a \<or> consuming b)"
| "consuming (Alt a b) = (consuming a \<and> consuming b)"
| "consuming r = False"

section \<open>Facts about matching\<close>

text \<open>
  The star equations of \<open>ms\<close> rewrite their own right-hand side, so they are applied by
  hand only.
\<close>

declare ms.simps(5,6) [simp del]

lemma ms_Star_set:
  "set (ms (Star a) st) =
     insert st (\<Union>x \<in> {x \<in> set (ms a st). length (snd x) < length (snd st)}. set (ms (Star a) x))"
  by (subst ms.simps(5)) auto

lemma ms_Lazy_set:
  "set (ms (Lazy a) st) =
     insert st (\<Union>x \<in> {x \<in> set (ms a st). length (snd x) < length (snd st)}. set (ms (Lazy a) x))"
  by (subst ms.simps(6)) auto

lemma ms_suffix: "st' \<in> set (ms r st) \<Longrightarrow> \<exists>pre. snd st = pre @ snd st'"
proof (induction r st arbitrary: st' rule: ms.induct)
  case (1 st)
  then show ?case by simp
next
  case (2 pos cs st)
  then show ?case by (cases st) (auto split: list.splits if_splits)
next
  case (3 a b st)
  from "3.prems" obtain x where x: "x \<in> set (ms a st)" and s: "st' \<in> set (ms b x)" by auto
  from "3.IH"(1)[OF x] obtain p1 where "snd st = p1 @ snd x" by blast
  moreover from "3.IH"(2)[OF x s] obtain p2 where "snd x = p2 @ snd st'" by blast
  ultimately show ?case by auto
next
  case (4 a b st)
  from "4.prems" have "st' \<in> set (ms a st) \<or> st' \<in> set (ms b st)" by simp
  then show ?case using "4.IH" by blast
next
  case (5 a st)
  from "5.prems" have "st' = st \<or> (\<exists>x \<in> set (ms a st). length (snd x) < length (snd st) \<and> st' \<in> set (ms (Star a) x))"
    by (subst (asm) ms_Star_set) blast
  then show ?case
  proof
    assume "st' = st" then show ?thesis by simp
  next
    assume "\<exists>x \<in> set (ms a st). length (snd x) < length (snd st) \<and> st' \<in> set (ms (Star a) x)"
    then obtain x where 2: "x \<in> set (ms a st)" "length (snd x) < length (snd st)" "st' \<in> set (ms (Star a) x)" by blast
    from "5.IH"(1)[OF 2(1)] obtain p1 where "snd st = p1 @ snd x" by blast
    moreover from "5.IH"(2)[OF 2(1) 2(2) 2(3)] obtain p2 where "snd x = p2 @ snd st'" by blast
    ultimately show ?thesis by auto
  qed
next
  case (6 a st)
  from "6.prems" have "st' = st \<or> (\<exists>x \<in> set (ms a st). length (snd x) < length (snd st) \<and> st' \<in> set (ms (Lazy a) x))"
    by (subst (asm) ms_Lazy_set) blast
  then show ?case
  proof
    assume "st' = st" then show ?thesis by simp
  next
    assume "\<exists>x \<in> set (ms a st). length (snd x) < length (snd st) \<and> st' \<in> set (ms (Lazy a) x)"
    then obtain x where 2: "x \<in> set (ms a st)" "length (snd x) < length (snd st)" "st' \<in> set (ms (Lazy a) x)" by blast
    from "6.IH"(1)[OF 2(1)] obtain p1 where "snd st = p1 @ snd x" by blast
    moreover from "6.IH"(2)[OF 2(1) 2(2) 2(3)] obtain p2 where "snd x = p2 @ snd st'" by blast
    ultimately show ?thesis by auto
  qed
next
  case (7 st) then show ?case by (simp split: if_splits)
next
  case (8 st) then show ?case by (simp split: if_splits)
next
  case (9 st) then show ?case by (simp split: if_splits)
qed

lemma ms_length: "x \<in> set (ms r st) \<Longrightarrow> length (snd x) \<le> length (snd st)"
  using ms_suffix[of x r st] by auto

lemma concat_map_concat:
  "concat (map f (concat (map g xs))) = concat (map (\<lambda>x. concat (map f (g x))) xs)"
  by (induction xs) auto

lemma ms_Seq_Star:
  "ms (Seq (Star a) b) st =
     concat (map (\<lambda>x. if length (snd x) < length (snd st) then ms (Seq (Star a) b) x else [])
                 (ms a st)) @ ms b st"
proof -
  have "ms (Seq (Star a) b) st = concat (map (ms b) (ms (Star a) st))" by simp
  also have "\<dots> = concat (map (ms b)
      (concat (map (\<lambda>x. if length (snd x) < length (snd st) then ms (Star a) x else []) (ms a st))))
      @ ms b st"
    by (subst ms.simps(5)) simp
  also have "concat (map (ms b)
      (concat (map (\<lambda>x. if length (snd x) < length (snd st) then ms (Star a) x else []) (ms a st))))
    = concat (map (\<lambda>x. if length (snd x) < length (snd st) then ms (Seq (Star a) b) x else [])
                 (ms a st))"
    unfolding concat_map_concat by (rule arg_cong[where f = concat]) auto
  finally show ?thesis .
qed

lemma ms_Seq_Lazy:
  "ms (Seq (Lazy a) b) st =
     ms b st @
     concat (map (\<lambda>x. if length (snd x) < length (snd st) then ms (Seq (Lazy a) b) x else [])
                 (ms a st))"
proof -
  have "ms (Seq (Lazy a) b) st = concat (map (ms b) (ms (Lazy a) st))" by simp
  also have "\<dots> = ms b st @ concat (map (ms b)
      (concat (map (\<lambda>x. if length (snd x) < length (snd st) then ms (Lazy a) x else []) (ms a st))))"
    by (subst ms.simps(6)) simp
  also have "concat (map (ms b)
      (concat (map (\<lambda>x. if length (snd x) < length (snd st) then ms (Lazy a) x else []) (ms a st))))
    = concat (map (\<lambda>x. if length (snd x) < length (snd st) then ms (Seq (Lazy a) b) x else [])
                 (ms a st))"
    unfolding concat_map_concat by (rule arg_cong[where f = concat]) auto
  finally show ?thesis .
qed

text \<open>Sequences are unfolded from the left, one character at a time.\<close>

lemma ms_Seq_fun: "ms (Seq b c) = (\<lambda>x. concat (map (ms c) (ms b x)))"
  by (rule ext) simp

lemma ms_Seq_assoc: "ms (Seq (Seq a b) c) st = ms (Seq a (Seq b c)) st"
  by (simp add: concat_map_concat ms_Seq_fun)

lemma ms_Seq_Alt: "ms (Seq (Alt a b) c) st = ms (Seq a c) st @ ms (Seq b c) st"
  by simp

lemma ms_Seq_Eps: "ms (Seq Eps b) st = ms b st"
  by simp

lemma ms_Seq_Cls_Cons:
  "ms (Seq (Cls pos cs) b) (p, c # s) = (if (c \<in> set cs) = pos then ms b (Some c, s) else [])"
  by simp

lemma ms_Seq_Cls_Nil: "ms (Seq (Cls pos cs) b) (p, []) = []"
  by simp

lemma ms_Seq_Star_Cls_Cons:
  "ms (Seq (Star (Cls pos cs)) b) (p, c # s) =
     (if (c \<in> set cs) = pos then ms (Seq (Star (Cls pos cs)) b) (Some c, s) else [])
     @ ms b (p, c # s)"
  by (subst ms_Seq_Star) simp

lemma ms_Seq_Star_Cls_Nil:
  "ms (Seq (Star (Cls pos cs)) b) (p, []) = ms b (p, [])"
  by (subst ms_Seq_Star) simp

lemma ms_Seq_Lazy_Cls_Cons:
  "ms (Seq (Lazy (Cls pos cs)) b) (p, c # s) =
     ms b (p, c # s) @
     (if (c \<in> set cs) = pos then ms (Seq (Lazy (Cls pos cs)) b) (Some c, s) else [])"
  by (subst ms_Seq_Lazy) simp

lemma ms_Seq_Lazy_Cls_Nil:
  "ms (Seq (Lazy (Cls pos cs)) b) (p, []) = ms b (p, [])"
  by (subst ms_Seq_Lazy) simp

lemma ms_Cls_Cons:
  "ms (Cls pos cs) (p, c # s) = (if (c \<in> set cs) = pos then [(Some c, s)] else [])"
  by simp

lemma ms_Cls_Nil: "ms (Cls pos cs) (p, []) = []"
  by simp

lemmas ms_step =
  ms_Seq_assoc ms_Seq_Alt ms_Seq_Eps ms_Seq_Cls_Cons ms_Seq_Cls_Nil
  ms_Seq_Star_Cls_Cons ms_Seq_Star_Cls_Nil ms_Seq_Lazy_Cls_Cons ms_Seq_Lazy_Cls_Nil

declare ms.simps(3) [simp del]

section \<open>Block comments\<close>

lemma comment_body_prefix: "\<exists>rest. s = comment_body s @ rest"
  by (induction s rule: comment_body.induct) auto

lemma comment_body_unterminated: "\<not> has_close s \<Longrightarrow> comment_body s = s"
  by (induction s rule: comment_body.induct) auto

lemma closer_Nil: "ms comment_end (p, []) = [(p, [])]"
  by (simp add: comment_end_def chr_def ms_step)

lemma closer_Cons:
  "ms comment_end (p, c # s) =
     (case s of [] \<Rightarrow> []
      | d # s' \<Rightarrow> if c = CHR ''*'' \<and> d = CHR ''/'' then [(Some d, s')] else [])"
  by (cases s) (simp_all add: comment_end_def chr_def ms_step)

lemma block_comment_tail:
  "\<exists>p' xs. ms (Seq (Lazy anychar) comment_end) (p, s)
     = (p', drop (length (comment_body s)) s) # xs"
proof (induction s arbitrary: p rule: comment_body.induct)
  case 1
  show ?case by (simp add: anychar_def ms_step closer_Nil)
next
  case (2 c)
  show ?case by (simp add: anychar_def ms_step closer_Nil closer_Cons)
next
  case (3 c d s)
  show ?case
  proof (cases "c = CHR ''*'' \<and> d = CHR ''/''")
    case True
    then show ?thesis
      unfolding anychar_def by (subst ms_Seq_Lazy_Cls_Cons) (simp add: closer_Cons)
  next
    case False
    from "3.IH"[OF False, of "Some c"] obtain p' xs where
      ih: "ms (Seq (Lazy (Cls False [])) comment_end) (Some c, d # s)
         = (p', drop (length (comment_body (d # s))) (d # s)) # xs"
      unfolding anychar_def by blast
    have e1: "ms comment_end (p, c # d # s) = []"
      using False by (simp add: closer_Cons)
    have e2: "comment_body (c # d # s) = c # comment_body (d # s)"
      using False by auto
    show ?thesis
      unfolding anychar_def
      by (subst ms_Seq_Lazy_Cls_Cons) (simp add: e1 e2 ih del: comment_body.simps)
  qed
qed

lemma exec_block_comment:
  "exec block_comment_regex (''/*'' @ rest) = Some (''/*'' @ comment_body rest)"
proof -
  obtain p' xs where h: "ms (Seq (Lazy anychar) comment_end) (Some CHR ''*'', rest)
     = (p', drop (length (comment_body rest)) rest) # xs"
    using block_comment_tail by blast
  obtain r where r: "rest = comment_body rest @ r" using comment_body_prefix by blast
  have len: "length (comment_body rest) \<le> length rest"
    by (subst (2) r) simp
  have tk: "take (length (comment_body rest)) rest = comment_body rest"
    by (subst (2) r) simp
  have "ms (pat block_comment_regex) (None, ''/*'' @ rest)
     = (p', drop (length (comment_body rest)) rest) # xs"
    using h by (simp add: block_comment_regex_def chr_def ms_step)
  then show ?thesis using len tk
    by (simp add: exec_def block_comment_regex_def)
qed


section \<open>Quoted strings that never close\<close>

lemma ms_Star_nonempty: "ms (Star a) st \<noteq> []"
  by (subst ms.simps(5)) simp

lemma string_end_Nil: "ms (string_end q) (p, []) = [(p, [])]"
  by (simp add: string_end_def chr_def)

lemma escape_none:
  "c \<noteq> bslash \<Longrightarrow> ms (escape_seq ex) (p, c # s) = []"
  "ms (escape_seq ex) (p, []) = []"
  by (simp_all add: escape_seq_def chr_def ms_step)

lemma escape_some:
  assumes "d \<noteq> CHR 0x0A" "d \<noteq> CHR 0x0D"
  shows "ms (escape_seq ex) (p, bslash # d # s) = ms (Star (Cls False ex)) (Some d, s)"
  using assms by (simp add: escape_seq_def chr_def dot_def ms_step ms_Seq_fun)

lemma escapes_skip:
  "c \<noteq> bslash \<Longrightarrow> ms (Seq (Star (escape_seq ex)) e) (p, c # s) = ms e (p, c # s)"
  "ms (Seq (Star (escape_seq ex)) e) (p, []) = ms e (p, [])"
  by (subst ms_Seq_Star, simp add: escape_none)+

lemma escapes_step:
  assumes "d \<noteq> CHR 0x0A" "d \<noteq> CHR 0x0D"
  shows "ms (Seq (Star (escape_seq ex)) e) (p, bslash # d # s) =
           ms (Seq (Star (Cls False ex)) (Seq (Star (escape_seq ex)) e)) (Some d, s)
           @ ms e (p, bslash # d # s)"
proof -
  have "map (\<lambda>x. if length (snd x) < length (snd (p, bslash # d # s))
                 then ms (Seq (Star (escape_seq ex)) e) x else [])
            (ms (Star (Cls False ex)) (Some d, s))
        = map (ms (Seq (Star (escape_seq ex)) e)) (ms (Star (Cls False ex)) (Some d, s))"
    by (rule map_cong) (auto dest: ms_length)
  then show ?thesis
    apply (subst ms_Seq_Star)
    apply (simp only: escape_some[OF assms])
    apply (simp only: ms.simps(3))
    done
qed

lemma string_tail:
  "unterminated ex s \<Longrightarrow> bslash \<in> set ex \<Longrightarrow>
         \<exists>p' xs. ms (Seq (Star (Cls False ex)) (Seq (Star (escape_seq ex)) (string_end q))) (p, s)
                  = (p', []) # xs"
proof (induction ex s arbitrary: p rule: unterminated.induct)
  case (1 ex)
  show ?case by (simp add: ms_step escapes_skip string_end_Nil)
next
  case (2 ex c s)
  show ?case
  proof (cases "c = bslash")
    case True
    with "2.prems" obtain d s' where s: "s = d # s'" and d: "d \<noteq> CHR 0x0A" "d \<noteq> CHR 0x0D"
      and u: "unterminated ex s'"
      by (auto split: list.splits)
    from "2.IH"(1)[OF True s u "2.prems"(2), of "Some d"] have
      "\<exists>p' xs. ms (Seq (Star (Cls False ex)) (Seq (Star (escape_seq ex)) (string_end q))) (Some d, s')
         = (p', []) # xs" .
    then obtain p' xs where
      ih: "ms (Seq (Star (Cls False ex)) (Seq (Star (escape_seq ex)) (string_end q))) (Some d, s')
         = (p', []) # xs" by blast
    have a: "ms (Seq (Star (Cls False ex)) (Seq (Star (escape_seq ex)) (string_end q)))
               (p, bslash # d # s')
           = ms (Seq (Star (escape_seq ex)) (string_end q)) (p, bslash # d # s')"
      using "2.prems"(2) by (subst ms_Seq_Star_Cls_Cons) simp
    show ?thesis
      unfolding True s a escapes_step[OF d] ih by simp
  next
    case False
    with "2.prems" have c: "c \<notin> set ex" and u: "unterminated ex s" by auto
    from "2.IH"(2)[OF False u "2.prems"(2), of "Some c"] obtain p' xs where
      ih: "ms (Seq (Star (Cls False ex)) (Seq (Star (escape_seq ex)) (string_end q))) (Some c, s)
         = (p', []) # xs" by blast
    show ?thesis
      using c by (subst ms_Seq_Star_Cls_Cons) (simp add: ih)
  qed
qed

lemma quoted_unterminated:
  assumes "bslash \<in> set ex" "unterminated ex body"
  shows "\<exists>p' xs. ms (quoted (chr q) ex q') (p, q # body) = (p', []) # xs"
proof -
  let ?G = "Seq (Star (Cls False ex)) (Seq (Star (escape_seq ex)) (string_end q'))"
  let ?SEG = "Seq (chr q) ?G"
  from string_tail[OF assms(2) assms(1), of q' "Some q"] obtain p' xs where
    g: "ms ?G (Some q, body) = (p', []) # xs" by blast
  have st: "ms (Star ?SEG) (p', []) = [(p', [])]"
    by (subst ms.simps(5)) (simp add: chr_def ms_step)
  have seg: "ms ?SEG (p, q # body) = ms ?G (Some q, body)"
    by (simp add: chr_def ms_Seq_Cls_Cons)
  have "ms (quoted (chr q) ex q') (p, q # body)
      = concat (map (ms (Star ?SEG)) (ms ?SEG (p, q # body)))"
    by (simp only: quoted_def rplus_def ms.simps(3))
  with seg g st show ?thesis by simp
qed

section \<open>Quoted strings that close\<close>

lemma string_end_close: "ms (string_end q) (p, [q]) = [(Some q, [])]"
  by (simp add: string_end_def chr_def)

lemma string_closed:
  "unterminated ex s \<Longrightarrow> bslash \<in> set ex \<Longrightarrow> q \<in> set ex \<Longrightarrow> q \<noteq> bslash \<Longrightarrow>
         \<exists>xs. ms (Seq (Star (Cls False ex)) (Seq (Star (escape_seq ex)) (string_end q))) (p, s @ [q])
                  = (Some q, []) # xs"
proof (induction ex s arbitrary: p rule: unterminated.induct)
  case (1 ex)
  then show ?case by (simp add: ms_step escapes_skip string_end_close)
next
  case (2 ex c s)
  show ?case
  proof (cases "c = bslash")
    case True
    with "2.prems" obtain d s' where s: "s = d # s'" and d: "d \<noteq> CHR 0x0A" "d \<noteq> CHR 0x0D"
      and u: "unterminated ex s'"
      by (auto split: list.splits)
    from "2.IH"(1)[OF True s u "2.prems"(2-4), of "Some d"] obtain xs where
      ih: "ms (Seq (Star (Cls False ex)) (Seq (Star (escape_seq ex)) (string_end q)))
             (Some d, s' @ [q]) = (Some q, []) # xs" by blast
    have a: "ms (Seq (Star (Cls False ex)) (Seq (Star (escape_seq ex)) (string_end q)))
               (p, bslash # d # s' @ [q])
           = ms (Seq (Star (escape_seq ex)) (string_end q)) (p, bslash # d # s' @ [q])"
      using "2.prems"(2) by (subst ms_Seq_Star_Cls_Cons) simp
    show ?thesis
      unfolding True s using a escapes_step[OF d, of ex "string_end q" p "s' @ [q]"] ih by simp
  next
    case False
    with "2.prems" have c: "c \<notin> set ex" and u: "unterminated ex s" by auto
    from "2.IH"(2)[OF False u "2.prems"(2-4), of "Some c"] obtain xs where
      ih: "ms (Seq (Star (Cls False ex)) (Seq (Star (escape_seq ex)) (string_end q)))
             (Some c, s @ [q]) = (Some q, []) # xs" by blast
    show ?thesis
      using c ih by (simp add: ms_Seq_Star_Cls_Cons)
  qed
qed

lemma quoted_closed:
  assumes "bslash \<in> set ex" "q' \<in> set ex" "q' \<noteq> bslash" "unterminated ex body"
  shows "\<exists>xs. ms (quoted (chr q) ex q') (p, q # body @ [q']) = (Some q', []) # xs"
proof -
  let ?G = "Seq (Star (Cls False ex)) (Seq (Star (escape_seq ex)) (string_end q'))"
  let ?SEG = "Seq (chr q) ?G"
  from string_closed[OF assms(4) assms(1) assms(2) assms(3), of "Some q"] obtain xs where
    g: "ms ?G (Some q, body @ [q']) = (Some q', []) # xs" by blast
  have st: "ms (Star ?SEG) (Some q', []) = [(Some q', [])]"
    by (subst ms.simps(5)) (simp add: chr_def ms_step)
  have seg: "ms ?SEG (p, q # body @ [q']) = ms ?G (Some q, body @ [q'])"
    by (simp add: chr_def ms_Seq_Cls_Cons)
  have "ms (quoted (chr q) ex q') (p, q # body @ [q'])
      = concat (map (ms (Star ?SEG)) (ms ?SEG (p, q # body @ [q'])))"
    by (simp only: quoted_def rplus_def ms.simps(3))
  with seg g st show ?thesis by simp
qed

section \<open>Alternatives and literal prefixes\<close>

lemma ms_alts_Cons:
  "ms (alts (r # rs)) st = ms r st @ (if rs = [] then [] else ms (alts rs) st)"
  by (cases rs) simp_all

lemma ms_Seq_alts:
  "rs \<noteq> [] \<Longrightarrow> ms (Seq (alts rs) b) st = concat (map (\<lambda>r. ms (Seq r b) st) rs)"
proof (induction rs rule: alts.induct)
  case 1
  then show ?case by simp
next
  case (2 r)
  show ?case by simp
next
  case (3 r v va)
  then show ?case by (simp add: ms_Seq_Alt)
qed

lemma ms_Seq_lit:
  "ms (Seq (lit t) b) (p, s) =
     (if take (length t) s = t
      then ms b (if t = [] then p else Some (last t), drop (length t) s) else [])"
proof (induction t arbitrary: p s)
  case Nil
  show ?case by (simp add: ms_Seq_Eps)
next
  case (Cons c t)
  show ?case
  proof (cases s)
    case Nil
    then show ?thesis by (simp add: chr_def ms_step)
  next
    case (Cons d s')
    then show ?thesis
      using Cons.IH[of "Some c" s'] by (auto simp add: chr_def ms_step)
  qed
qed

section \<open>Whitespace and operators cover every character\<close>

lemma whitespace_matches:
  assumes "c \<in> set space_chars"
  shows "exec whitespace_regex (c # s) \<noteq> None"
proof -
  have "ms (pat whitespace_regex) (None, c # s) = ms (Star white) (Some c, s)"
    using assms by (simp add: whitespace_regex_def rplus_def white_def ms.simps(3))
  then show ?thesis
    using ms_Star_nonempty[of white "(Some c, s)"]
    by (auto simp: exec_def whitespace_regex_def split: list.splits)
qed

lemma ms_alts_last:
  "x \<in> set (ms r st) \<Longrightarrow> x \<in> set (ms (alts (rs @ [r])) st)"
  by (induction rs) (auto simp: ms_alts_Cons)

lemma operator_matches:
  assumes "c \<noteq> CHR 0x0A" "c \<noteq> CHR 0x0D"
  shows "exec operator_regex (c # s) \<noteq> None"
proof -
  have "(Some c, s) \<in> set (ms dot (None, c # s))"
    using assms by (simp add: dot_def)
  then have "(Some c, s) \<in> set (ms (pat operator_regex) (None, c # s))"
    unfolding operator_regex_def regexp.simps by (rule ms_alts_last)
  then show ?thesis
    by (auto simp: exec_def operator_regex_def split: list.splits)
qed


section \<open>The string pattern of a dialect\<close>

lemma known_skip:
  assumes "patterns t = Some r" and "t \<noteq> [q, q]" and "q = squote \<or> q = dquote"
  shows "ms r (p, q # body) = []"
  using assms
  by (auto simp: patterns_def quoted_def rplus_def bracket_segment_def chr_def ms_step
      squote_def dquote_def btick_def split: if_splits)

lemma quote_pattern:
  "q = squote \<or> q = dquote \<Longrightarrow> patterns [q, q] = Some (quoted (chr q) [q, bslash] q)"
  by (auto simp: patterns_def squote_def dquote_def btick_def)

lemma string_alts:
  assumes "q = squote \<or> q = dquote" and "unterminated [q, bslash] body"
  shows "list_all (\<lambda>t. patterns t \<noteq> None) sts \<Longrightarrow> [q, q] \<in> set sts \<Longrightarrow>
         \<exists>p' xs. ms (alts (map (\<lambda>t. case patterns t of None \<Rightarrow> Eps | Some r \<Rightarrow> r) sts))
                     (p, q # body) = (p', []) # xs"
proof (induction sts)
  case Nil
  then show ?case by simp
next
  case (Cons t ts)
  show ?case
  proof (cases "t = [q, q]")
    case True
    from quoted_unterminated[of "[q, bslash]" body q q p] assms(2) obtain p' xs where
      "ms (quoted (chr q) [q, bslash] q) (p, q # body) = (p', []) # xs" by auto
    with True quote_pattern[OF assms(1)] show ?thesis
      by (simp add: ms_alts_Cons)
  next
    case False
    with Cons.prems obtain r where r: "patterns t = Some r" and ts: "[q, q] \<in> set ts"
      and all: "list_all (\<lambda>t. patterns t \<noteq> None) ts" by auto
    from ts have ne: "ts \<noteq> []" by auto
    from Cons.IH[OF all ts] known_skip[OF r False assms(1), of p body] r ne show ?thesis
      by (simp add: ms_alts_Cons)
  qed
qed

lemma exec_head:
  assumes "ms (pat rx) (None, input) = (p', []) # xs" and "wordBoundary rx = False"
  shows "exec rx input = Some input"
  using assms by (simp add: exec_def)

lemma exec_no_start:
  assumes "ms (pat rx) (None, input) = []"
  shows "exec rx input = None"
  using assms by (simp add: exec_def)

lemma whitespace_none:
  "c \<notin> set space_chars \<Longrightarrow> exec whitespace_regex (c # s) = None"
  by (rule exec_no_start) (simp add: whitespace_regex_def rplus_def white_def ms_step)

lemma block_comment_none:
  "c \<noteq> CHR ''/'' \<Longrightarrow> exec block_comment_regex (c # s) = None"
  by (rule exec_no_start) (simp add: block_comment_regex_def chr_def ms_step)


lemma alts_first_known:
  assumes "q = squote \<or> q = dquote"
    and "ms (quoted (chr q) [q, bslash] q) (p, q # body) = x # xs"
  shows "list_all (\<lambda>t. patterns t \<noteq> None) sts \<Longrightarrow> [q, q] \<in> set sts \<Longrightarrow>
         \<exists>ys. ms (alts (map (\<lambda>t. case patterns t of None \<Rightarrow> Eps | Some r \<Rightarrow> r) sts))
                  (p, q # body) = x # ys"
proof (induction sts)
  case Nil
  then show ?case by simp
next
  case (Cons t ts)
  show ?case
  proof (cases "t = [q, q]")
    case True
    with assms(2) quote_pattern[OF assms(1)] show ?thesis
      by (simp add: ms_alts_Cons)
  next
    case False
    with Cons.prems obtain r where r: "patterns t = Some r" and ts: "[q, q] \<in> set ts"
      and all: "list_all (\<lambda>t. patterns t \<noteq> None) ts" by auto
    from ts have ne: "ts \<noteq> []" by auto
    from Cons.IH[OF all ts] known_skip[OF r False assms(1), of p body] r ne show ?thesis
      by (simp add: ms_alts_Cons)
  qed
qed

lemma known_other:
  assumes "patterns t = Some r" and "c \<notin> set [btick, CHR ''['', dquote, squote, CHR ''N'']"
  shows "ms r (p, c # s) = []"
  using assms
  by (auto simp: patterns_def quoted_def rplus_def bracket_segment_def chr_def ms_step
      split: if_splits)

lemma string_alts_other:
  assumes "c \<notin> set [btick, CHR ''['', dquote, squote, CHR ''N'']"
  shows "list_all (\<lambda>t. patterns t \<noteq> None) sts \<Longrightarrow> sts \<noteq> [] \<Longrightarrow>
         ms (alts (map (\<lambda>t. case patterns t of None \<Rightarrow> Eps | Some r \<Rightarrow> r) sts)) (p, c # s) = []"
proof (induction sts)
  case Nil
  then show ?case by simp
next
  case (Cons t ts)
  then obtain r where r: "patterns t = Some r" by auto
  show ?case
  proof (cases "ts = []")
    case True
    with r known_other[OF r assms, of p s] show ?thesis by simp
  next
    case False
    with Cons r known_other[OF r assms, of p s] show ?thesis
      by (simp add: ms_alts_Cons)
  qed
qed

section \<open>Parens on an input that begins with an at sign\<close>

text \<open>
  The at sign is no letter, so with the flag \<^verbatim>\<open>i\<close> only the paren \<^verbatim>\<open>@\<close> itself matches it, and
  it is no word character, so the \<^verbatim>\<open>\b\<close> that begins a longer paren fails before it.
\<close>

lemma icase_cases:
  "c \<in> set (icase d) \<Longrightarrow> c = d \<or> c \<in> set upper_chars \<or> c \<in> set lower_chars"
  by (auto simp: icase_def split: option.splits dest!: map_of_SomeD dest: set_zip_rightD)

lemma at_not_letter: "CHR ''@'' \<in> set (icase d) \<Longrightarrow> d = CHR ''@''"
  by (drule icase_cases) (auto simp: upper_chars_def lower_chars_def)

lemma escapeParen_at:
  "''@'' \<noteq> p \<Longrightarrow> ms (escapeParen p) (None, CHR ''@'' # s) = []"
proof (cases "length p = 1")
  case True
  assume "''@'' \<noteq> p"
  from True obtain d where p: "p = [d]" by (cases p) auto
  with \<open>''@'' \<noteq> p\<close> have "CHR ''@'' \<notin> set (icase d)" using at_not_letter by auto
  then show ?thesis by (simp add: escapeParen_def liti_def p ms_step)
next
  case False
  then show ?thesis
    by (simp add: escapeParen_def ms.simps(3) at_boundary_def is_word_char_def)
qed

lemma parens_at:
  "ps \<noteq> [] \<Longrightarrow> ''@'' \<notin> set ps \<Longrightarrow> ms (alts (map escapeParen ps)) (None, CHR ''@'' # s) = []"
proof (induction ps)
  case Nil
  then show ?case by simp
next
  case (Cons p ps)
  then show ?case by (cases "ps = []") (simp_all add: ms_alts_Cons escapeParen_at del: alts.simps)
qed

section \<open>Placeholder prefixes and keys\<close>

text \<open>The prefixes of a placeholder pattern, when only one of them begins the input.\<close>

lemma ms_Seq_alts_Cons:
  "ms (Seq (alts (r # rs)) b) st =
     ms (Seq r b) st @ (if rs = [] then [] else ms (Seq (alts rs) b) st)"
  by (cases rs) (simp_all add: ms_Seq_Alt)

lemma prefix_alts_first:
  assumes "ms b (Some (last t0), drop (length t0) s) = x # xs" and "t0 \<noteq> []"
    and "take (length t0) s = t0"
  shows "list_all (\<lambda>t. t = t0 \<or> take (length t) s \<noteq> t) ts \<Longrightarrow> t0 \<in> set ts \<Longrightarrow>
         \<exists>ys. ms (Seq (alts (map lit ts)) b) (p, s) = x # ys"
proof (induction ts)
  case Nil
  then show ?case by simp
next
  case (Cons t ts)
  show ?case
  proof (cases "t = t0")
    case True
    with assms show ?thesis
      by (simp add: ms_Seq_alts_Cons ms_Seq_lit del: alts.simps)
  next
    case False
    with Cons.prems have np: "take (length t) s \<noteq> t"
      and all: "list_all (\<lambda>t. t = t0 \<or> take (length t) s \<noteq> t) ts"
      and mem: "t0 \<in> set ts" by auto
    from mem have "ts \<noteq> []" by auto
    with Cons.IH[OF all mem] np show ?thesis
      by (simp add: ms_Seq_alts_Cons ms_Seq_lit del: alts.simps)
  qed
qed

text \<open>The prefixes of a pattern, when none of them leads to a match.\<close>

lemma prefix_alts_none:
  "ts \<noteq> [] \<Longrightarrow>
   list_all (\<lambda>t. take (length t) s = t \<longrightarrow>
                  ms b (if t = [] then p else Some (last t), drop (length t) s) = []) ts \<Longrightarrow>
   ms (Seq (alts (map lit ts)) b) (p, s) = []"
proof (induction ts)
  case Nil
  then show ?case by simp
next
  case (Cons t ts)
  show ?case
  proof (cases "ts = []")
    case True
    with Cons.prems show ?thesis by (simp add: ms_Seq_lit)
  next
    case False
    with Cons show ?thesis
      by (simp add: ms_Seq_alts_Cons ms_Seq_lit del: alts.simps)
  qed
qed

lemma not_prefix_at:
  "t \<noteq> [] \<and> hd t \<noteq> CHR ''@'' \<Longrightarrow> take (length t) (CHR ''@'' # s) \<noteq> t"
  by (cases t) auto

lemma replaceAll_unescape:
  "replaceAll (Seq (chr bslash) (chr q)) [q] p k = unescape q k"
proof (induction q k arbitrary: p rule: unescape.induct)
  case (1 q)
  show ?case by (simp add: chr_def ms_step)
next
  case (2 q c)
  show ?case by (simp add: chr_def ms_step)
next
  case (3 q c d s)
  show ?case
  proof (cases "c = bslash \<and> d = q")
    case True
    with "3.IH"(1)[OF True, of "Some q"] show ?thesis by (simp add: chr_def ms_step)
  next
    case False
    with "3.IH"(2)[OF False, of "Some c"] show ?thesis by (auto simp add: chr_def ms_step)
  qed
qed

lemma getEscapedPlaceholderKey_unescape:
  assumes "q \<notin> set ''()[*+?|.^$''" and "q \<noteq> bslash"
  shows "getEscapedPlaceholderKey k (Some q) = Inr (unescape q k)"
  using assms by (simp add: getEscapedPlaceholderKey_def quoteCharRegex_def replaceAll_unescape)


section \<open>Classifier results\<close>

text \<open>
  Group 1 is a prefix of the input: whatever a classifier returns as \<^verbatim>\<open>value\<close> is the head of
  the text it was given.
\<close>

lemma exec_take: "exec rx input = Some v \<Longrightarrow> \<exists>k. v = take k input"
  by (auto simp: exec_def split: list.splits)

lemma first_match_take:
  "getTokenOnFirstMatch input ty regex = Some t \<Longrightarrow> \<exists>k. value t = take k input"
  by (auto simp: getTokenOnFirstMatch_def split: option.splits dest: exec_take)

lemma first_match_type:
  "getTokenOnFirstMatch input ty regex = Some t \<Longrightarrow> type t = ty"
  by (auto simp: getTokenOnFirstMatch_def split: option.splits)

lemma placeholder_take:
  "getPlaceholderTokenWithKey input regex parseKey = Inr (Some t) \<Longrightarrow> \<exists>k. value t = take k input"
  by (auto simp: getPlaceholderTokenWithKey_def split: option.splits sum.splits dest: first_match_take)

lemma placeholder_type:
  "getPlaceholderTokenWithKey input regex parseKey = Inr (Some t) \<Longrightarrow> type t = PLACEHOLDER"
  by (auto simp: getPlaceholderTokenWithKey_def split: option.splits sum.splits dest: first_match_type)

lemma orElseE_cases:
  "orElseE a b = Inr (Some t) \<Longrightarrow> a = Inr (Some t) \<or> (a = Inr None \<and> b = Inr (Some t))"
  by (auto simp: orElseE_def split: sum.splits option.splits)

lemma orElse_cases:
  "orElse a b = Some t \<Longrightarrow> a = Some t \<or> (a = None \<and> b = Some t)"
  by (auto simp: orElse_def split: option.splits)


lemmas classifier_defs =
  getWhitespaceToken_def getLineCommentToken_def getBlockCommentToken_def
  getStringToken_def getOpenParenToken_def getCloseParenToken_def getNumberToken_def
  getOperatorToken_def getToplevelReservedToken_def getNewlineReservedToken_def
  getPlainReservedToken_def getWordToken_def

lemmas placeholder_defs =
  getIdentNamedPlaceholderToken_def getStringNamedPlaceholderToken_def
  getIndexedPlaceholderToken_def

lemma comment_take: "getCommentToken T input = Some t \<Longrightarrow> \<exists>k. value t = take k input"
  unfolding getCommentToken_def classifier_defs
  by (auto dest!: orElse_cases dest: first_match_take)

lemma reserved_take:
  "getReservedWordToken T input prev = Some t \<Longrightarrow> \<exists>k. value t = take k input"
  unfolding getReservedWordToken_def classifier_defs
  by (auto dest!: orElse_cases dest: first_match_take split: if_splits)

lemma placeholderToken_take:
  "getPlaceholderToken T input = Inr (Some t) \<Longrightarrow> \<exists>k. value t = take k input"
  unfolding getPlaceholderToken_def placeholder_defs
  by (auto dest!: orElseE_cases dest: placeholder_take)

lemma getNextToken_take:
  assumes "getNextToken T input prev = Inr (Some t)"
  shows "\<exists>k. value t = take k input"
proof -
  from assms consider
      "getWhitespaceToken T input = Some t" | "getCommentToken T input = Some t"
    | "getStringToken T input = Some t" | "getOpenParenToken T input = Some t"
    | "getCloseParenToken T input = Some t" | "getPlaceholderToken T input = Inr (Some t)"
    | "getNumberToken T input = Some t" | "getReservedWordToken T input prev = Some t"
    | "getWordToken T input = Some t" | "getOperatorToken T input = Some t"
    unfolding getNextToken_def by (auto dest!: orElseE_cases)
  then show ?thesis
    by cases (auto simp: classifier_defs
        dest: first_match_take comment_take reserved_take placeholderToken_take)
qed

lemma covers_append:
  "covers p (xs @ ys) e = (\<exists>m. covers p xs m \<and> covers m ys e)"
  by (induction xs arbitrary: p) (auto split: option.splits)

lemma tokenize_loop_invariant:
  assumes "tokenize_loop n T input tok lastPosition tokens = Some (Inr toks)"
    and "covers 0 tokens lastPosition"
  shows "concat (map value toks) = concat (map value tokens) @ input
         \<and> covers 0 toks (lastPosition + length input)"
  using assms
proof (induction n arbitrary: input tok lastPosition tokens)
  case 0
  then show ?case by simp
next
  case (Suc n)
  show ?case
  proof (cases "input = []")
    case True
    with Suc.prems show ?thesis by simp
  next
    case False
    with Suc.prems(1) obtain t where
      t: "getNextToken T input tok = Inr (Some t)" and
      rec: "tokenize_loop n T (drop (length (value t)) input)
              (Some (t\<lparr>position := Some (lastPosition, lastPosition + length (value t))\<rparr>))
              (lastPosition + length (value t))
              (tokens @ [t\<lparr>position := Some (lastPosition, lastPosition + length (value t))\<rparr>])
            = Some (Inr toks)"
      by (auto simp: Let_def split: sum.splits option.splits)
    from getNextToken_take[OF t] obtain k where k: "value t = take k input" by blast
    have cov: "covers 0 (tokens @ [t\<lparr>position := Some (lastPosition, lastPosition + length (value t))\<rparr>])
                 (lastPosition + length (value t))"
      using Suc.prems(2) by (auto simp: covers_append)
    from Suc.IH[OF rec cov] k show ?thesis
      by (auto simp: min_def)
  qed
qed


section \<open>Errors, first tokens and single tokens\<close>

lemma orElseE_None: "orElseE a b = Inr None \<longleftrightarrow> a = Inr None \<and> b = Inr None"
  by (auto simp: orElseE_def split: sum.splits option.splits)

lemma orElseE_Inr_Some [simp]: "orElseE (Inr (Some t)) b = Inr (Some t)"
  by (simp add: orElseE_def)

lemma orElseE_Inr_None [simp]: "orElseE (Inr None) b = b"
  by (simp add: orElseE_def)

lemma orElse_None [simp]: "orElse None b = b"
  by (simp add: orElse_def)

lemma orElse_Some [simp]: "orElse (Some t) b = Some t"
  by (simp add: orElse_def)

lemma first_match_None:
  "getTokenOnFirstMatch input ty (Some rx) = None \<longleftrightarrow> exec rx input = None"
  by (simp add: getTokenOnFirstMatch_def split: option.splits)

lemma getNextToken_total:
  assumes "WHITESPACE_REGEX T = Some whitespace_regex"
    and "OPERATOR_REGEX T = Some operator_regex"
    and "input \<noteq> []"
  shows "getNextToken T input prev \<noteq> Inr None"
proof
  assume n: "getNextToken T input prev = Inr None"
  from assms(3) obtain c s where cs: "input = c # s" by (cases input) auto
  from n have w: "getWhitespaceToken T input = None" and o: "getOperatorToken T input = None"
    by (simp_all add: getNextToken_def orElseE_None)
  from w have "c \<notin> set space_chars"
    using whitespace_matches[of c s]
    by (auto simp: getWhitespaceToken_def assms(1) first_match_None cs)
  then have "c \<noteq> CHR 0x0A" "c \<noteq> CHR 0x0D" by (auto simp: space_chars_def)
  from operator_matches[OF this, of s] o show False
    by (simp add: getOperatorToken_def assms(2) first_match_None cs)
qed

lemma quoteCharRegex_error: "quoteCharRegex q = Inl e \<Longrightarrow> e = SyntaxError"
  by (auto simp: quoteCharRegex_def split: option.splits if_splits)

lemma placeholder_error:
  "getPlaceholderToken T input = Inl e \<Longrightarrow> e = SyntaxError"
  by (auto simp: getPlaceholderToken_def placeholder_defs getPlaceholderTokenWithKey_def
      orElseE_def getEscapedPlaceholderKey_def
      split: sum.splits option.splits dest: quoteCharRegex_error)

lemma getNextToken_error:
  "getNextToken T input prev = Inl e \<Longrightarrow> e = SyntaxError"
  by (auto simp: getNextToken_def orElseE_def split: sum.splits option.splits
      dest: placeholder_error)

lemma tokenize_loop_no_TypeError:
  assumes "WHITESPACE_REGEX T = Some whitespace_regex"
    and "OPERATOR_REGEX T = Some operator_regex"
  shows "tokenize_loop n T input tok p toks \<noteq> Some (Inl TypeError)"
proof (induction n arbitrary: input tok p toks)
  case 0
  show ?case by simp
next
  case (Suc n)
  show ?case
  proof (cases "input = []")
    case True
    then show ?thesis by simp
  next
    case False
    show ?thesis
    proof (cases "getNextToken T input tok")
      case (Inl e)
      with getNextToken_error[OF Inl] False show ?thesis by simp
    next
      case (Inr r)
      with getNextToken_total[OF assms False, of tok] obtain t where "r = Some t" by (cases r) auto
      with Inr False Suc.IH show ?thesis by (simp add: Let_def)
    qed
  qed
qed

lemma tokenize_single:
  assumes "getNextToken T input None = Inr (Some t)" and "value t = input" and "input \<noteq> []"
  shows "tokenize (Suc (Suc n)) T input
           = Some (Inr [t\<lparr>position := Some (0, length input)\<rparr>])"
  using assms by (simp add: tokenize_def Let_def)

lemma tokenize_loop_extends:
  "tokenize_loop n T input tok p acc = Some (Inr toks) \<Longrightarrow> \<exists>more. toks = acc @ more"
proof (induction n arbitrary: input tok p acc)
  case 0
  then show ?case by simp
next
  case (Suc n)
  show ?case
  proof (cases "input = []")
    case True
    with Suc.prems show ?thesis by simp
  next
    case False
    with Suc.prems obtain t where
      "tokenize_loop n T (drop (length (value t)) input)
         (Some (t\<lparr>position := Some (p, p + length (value t))\<rparr>)) (p + length (value t))
         (acc @ [t\<lparr>position := Some (p, p + length (value t))\<rparr>]) = Some (Inr toks)"
      by (auto simp: Let_def split: sum.splits option.splits)
    from Suc.IH[OF this] show ?thesis by auto
  qed
qed

lemma tokenize_first:
  assumes "tokenize n T input = Some (Inr toks)" and "input \<noteq> []"
    and "getNextToken T input None = Inr (Some t)"
  shows "\<exists>more. toks = t\<lparr>position := Some (0, length (value t))\<rparr> # more"
proof -
  from assms(1) obtain m where n: "n = Suc m" by (cases n) (auto simp: tokenize_def)
  from assms have "tokenize_loop m T (drop (length (value t)) input)
         (Some (t\<lparr>position := Some (0, length (value t))\<rparr>)) (length (value t))
         [t\<lparr>position := Some (0, length (value t))\<rparr>] = Some (Inr toks)"
    by (simp add: tokenize_def n Let_def)
  from tokenize_loop_extends[OF this] show ?thesis by auto
qed


lemma orElseE_assoc: "orElseE (orElseE a b) c = orElseE a (orElseE b c)"
  by (simp add: orElseE_def split: sum.splits option.splits)

lemma orElseE_orElse: "orElseE (Inr (orElse a b)) c = orElseE (Inr a) (orElseE (Inr b) c)"
  by (simp add: orElseE_def orElse_def split: option.splits)

lemma orElseE_right_None: "orElseE a (Inr None) = a"
  by (simp add: orElseE_def split: sum.splits option.splits)

lemma firstMatch_Nil: "firstMatch [] = Inr None"
  by (simp add: firstMatch_def)

lemma firstMatch_Cons: "firstMatch (r # rs) = orElseE r (firstMatch rs)"
  by (simp add: firstMatch_def)

lemma no_reserved_after_dot:
  assumes "getNextToken T input (Some p) = Inr (Some t)" and "value p = ''.''"
  shows "type t \<notin> {RESERVED, RESERVED_TOPLEVEL, RESERVED_NEWLINE}"
proof -
  from assms consider
      "getWhitespaceToken T input = Some t" | "getCommentToken T input = Some t"
    | "getStringToken T input = Some t" | "getOpenParenToken T input = Some t"
    | "getCloseParenToken T input = Some t" | "getPlaceholderToken T input = Inr (Some t)"
    | "getNumberToken T input = Some t"
    | "getWordToken T input = Some t" | "getOperatorToken T input = Some t"
    unfolding getNextToken_def getReservedWordToken_def by (auto dest!: orElseE_cases)
  then show ?thesis
    by cases (auto simp: classifier_defs getCommentToken_def getPlaceholderToken_def
        placeholder_defs
        dest!: orElse_cases orElseE_cases dest: first_match_type placeholder_type)
qed


section \<open>What the constructor builds\<close>

lemma constructor_Inr:
  "constructor c = Inr T \<longleftrightarrow>
     (\<exists>lc tw nw pw st op cl.
        lineCommentTypes c = Some lc \<and> reservedToplevelWords c = Some tw \<and>
        reservedNewlineWords c = Some nw \<and> reservedWords c = Some pw \<and>
        stringTypes c = Some st \<and> openParens c = Some op \<and> closeParens c = Some cl \<and>
        T = \<lparr>WHITESPACE_REGEX = Some whitespace_regex,
             NUMBER_REGEX = Some number_regex,
             OPERATOR_REGEX = Some operator_regex,
             BLOCK_COMMENT_REGEX = Some block_comment_regex,
             LINE_COMMENT_REGEX =
               Some \<lparr>pat = Seq (alts (map lit lc)) (Seq (Lazy dot) (Alt (chr newline) Eoi)),
                     wordBoundary = False\<rparr>,
             RESERVED_TOPLEVEL_REGEX =
               Some \<lparr>pat = alts (map reservedWordPattern tw), wordBoundary = True\<rparr>,
             RESERVED_NEWLINE_REGEX =
               Some \<lparr>pat = alts (map reservedWordPattern nw), wordBoundary = True\<rparr>,
             RESERVED_PLAIN_REGEX =
               Some \<lparr>pat = alts (map reservedWordPattern pw), wordBoundary = True\<rparr>,
             WORD_REGEX = Some (createWordRegex (wordChars c)),
             STRING_REGEX =
               Some \<lparr>pat = alts (map (\<lambda>t. case patterns t of None \<Rightarrow> Eps | Some r \<Rightarrow> r) st),
                     wordBoundary = False\<rparr>,
             OPEN_PAREN_REGEX = Some \<lparr>pat = alts (map escapeParen op), wordBoundary = False\<rparr>,
             CLOSE_PAREN_REGEX = Some \<lparr>pat = alts (map escapeParen cl), wordBoundary = False\<rparr>,
             INDEXED_PLACEHOLDER_REGEX =
               createPlaceholderRegex (indexedPlaceholderTypes c) (Star digit),
             IDENT_NAMED_PLACEHOLDER_REGEX =
               createPlaceholderRegex (namedPlaceholderTypes c)
                 (case indentRegex c of None \<Rightarrow> lit ''undefined'' | Some r \<Rightarrow> r),
             STRING_NAMED_PLACEHOLDER_REGEX =
               createPlaceholderRegex (namedPlaceholderTypes c)
                 (alts (map (\<lambda>t. case patterns t of None \<Rightarrow> Eps | Some r \<Rightarrow> r) st))\<rparr>)"
  by (auto simp: constructor_def createLineCommentRegex_def createReservedWordRegex_def
      createStringRegex_def createStringPattern_def createParenRegex_def
      split: option.splits sum.splits)

lemma constructor_sample: "constructor sampleConfig = Inr sampleTokenizer"
  by (simp add: sampleTokenizer_def constructor_def sampleConfig_def
      createLineCommentRegex_def createReservedWordRegex_def createStringRegex_def
      createStringPattern_def createParenRegex_def split: sum.splits)

lemma constructor_fixed:
  assumes "constructor c = Inr T"
  shows "WHITESPACE_REGEX T = Some whitespace_regex"
    and "OPERATOR_REGEX T = Some operator_regex"
    and "BLOCK_COMMENT_REGEX T = Some block_comment_regex"
    and "NUMBER_REGEX T = Some number_regex"
  using assms unfolding constructor_Inr by auto

lemma constructor_string:
  assumes "constructor c = Inr T" and "stringTypes c = Some sts"
  shows "STRING_REGEX T =
           Some \<lparr>pat = alts (map (\<lambda>t. case patterns t of None \<Rightarrow> Eps | Some r \<Rightarrow> r) sts),
                 wordBoundary = False\<rparr>"
  using assms unfolding constructor_Inr by auto

lemma constructor_lists:
  assumes "constructor c = Inr T"
  shows "lineCommentTypes c = Some lts \<Longrightarrow>
           LINE_COMMENT_REGEX T =
             Some \<lparr>pat = Seq (alts (map lit lts)) (Seq (Lazy dot) (Alt (chr newline) Eoi)),
                   wordBoundary = False\<rparr>"
    and "openParens c = Some ops \<Longrightarrow>
           OPEN_PAREN_REGEX T = Some \<lparr>pat = alts (map escapeParen ops), wordBoundary = False\<rparr>"
    and "closeParens c = Some cps \<Longrightarrow>
           CLOSE_PAREN_REGEX T = Some \<lparr>pat = alts (map escapeParen cps), wordBoundary = False\<rparr>"
    and "namedPlaceholderTypes c = Some nts \<Longrightarrow> nts \<noteq> [] \<Longrightarrow> indentRegex c = Some r \<Longrightarrow>
           IDENT_NAMED_PLACEHOLDER_REGEX T =
             Some \<lparr>pat = Seq (alts (map lit nts)) r, wordBoundary = False\<rparr>"
  using assms unfolding constructor_Inr by (auto simp: createPlaceholderRegex_def)

lemma first_match_Some:
  "exec rx input = Some v \<Longrightarrow>
   getTokenOnFirstMatch input ty (Some rx) = Some \<lparr>type = ty, value = v, key = None, position = None\<rparr>"
  by (simp add: getTokenOnFirstMatch_def)

lemma block_comment_next:
  assumes "constructor c = Inr T" and "getLineCommentToken T (''/*'' @ rest) = None"
  shows "getNextToken T (''/*'' @ rest) prev =
           Inr (Some \<lparr>type = BLOCK_COMMENT, value = ''/*'' @ comment_body rest, key = None,
                       position = None\<rparr>)"
proof -
  have w: "getWhitespaceToken T (''/*'' @ rest) = None"
    using whitespace_none[of "CHR ''/''" "CHR ''*'' # rest"]
    by (simp add: getWhitespaceToken_def constructor_fixed[OF assms(1)] first_match_None
        space_chars_def)
  have b: "getBlockCommentToken T (''/*'' @ rest) =
             Some \<lparr>type = BLOCK_COMMENT, value = ''/*'' @ comment_body rest, key = None,
                   position = None\<rparr>"
    unfolding getBlockCommentToken_def constructor_fixed[OF assms(1)]
    by (rule first_match_Some) (rule exec_block_comment)
  show ?thesis
    using w b assms(2) by (simp add: getNextToken_def getCommentToken_def)
qed

lemma string_next:
  assumes "constructor c = Inr T" and "getLineCommentToken T (q # body) = None"
    and "q = squote \<or> q = dquote" and "stringTypes c = Some sts"
    and "list_all (\<lambda>t. patterns t \<noteq> None) sts" and "[q, q] \<in> set sts"
    and "unterminated [q, bslash] body"
  shows "getNextToken T (q # body) prev =
           Inr (Some \<lparr>type = STRING, value = q # body, key = None, position = None\<rparr>)"
proof -
  have w: "getWhitespaceToken T (q # body) = None"
    using whitespace_none[of q body] assms(3)
    by (auto simp add: getWhitespaceToken_def constructor_fixed[OF assms(1)] first_match_None
        space_chars_def squote_def dquote_def)
  have b: "getBlockCommentToken T (q # body) = None"
    using block_comment_none[of q body] assms(3)
    by (auto simp add: getBlockCommentToken_def constructor_fixed[OF assms(1)] first_match_None
        squote_def dquote_def)
  from string_alts[OF assms(3) assms(7) assms(5) assms(6), of None] obtain p' xs where
    "ms (alts (map (\<lambda>t. case patterns t of None \<Rightarrow> Eps | Some r \<Rightarrow> r) sts)) (None, q # body)
       = (p', []) # xs" by blast
  then have "exec \<lparr>pat = alts (map (\<lambda>t. case patterns t of None \<Rightarrow> Eps | Some r \<Rightarrow> r) sts),
                   wordBoundary = False\<rparr> (q # body) = Some (q # body)"
    by (intro exec_head) simp_all
  then have s: "getStringToken T (q # body) =
      Some \<lparr>type = STRING, value = q # body, key = None, position = None\<rparr>"
    unfolding getStringToken_def constructor_string[OF assms(1) assms(4)]
    by (rule first_match_Some)
  show ?thesis
    by (simp add: getNextToken_def getCommentToken_def w b s assms(2))
qed

section \<open>The placeholder of claim C5\<close>

lemma constructor_string_named:
  assumes "constructor c = Inr T" and "namedPlaceholderTypes c = Some nts" and "nts \<noteq> []"
    and "stringTypes c = Some sts"
  shows "STRING_NAMED_PLACEHOLDER_REGEX T =
           Some \<lparr>pat = Seq (alts (map lit nts))
                          (alts (map (\<lambda>t. case patterns t of None \<Rightarrow> Eps | Some r \<Rightarrow> r) sts)),
                 wordBoundary = False\<rparr>"
  using assms unfolding constructor_Inr by (auto simp: createPlaceholderRegex_def)

lemma quoted_key_slices:
  "slice2m1 (CHR ''@'' # squote # k @ [squote]) = k"
  "slicem1 (CHR ''@'' # squote # k @ [squote]) = Some squote"
  by (simp_all add: slice2m1_def slicem1_def)

lemma string_named_placeholder_next:
  assumes T: "constructor c = Inr T"
    and nts: "namedPlaceholderTypes c = Some nts" "''@'' \<in> set nts"
      "list_all (\<lambda>t. t = ''@'' \<or> (t \<noteq> [] \<and> hd t \<noteq> CHR ''@'')) nts"
    and sts: "stringTypes c = Some sts" "[squote, squote] \<in> set sts"
      "list_all (\<lambda>t. patterns t \<noteq> None) sts"
    and lts: "lineCommentTypes c = Some lts" "lts \<noteq> []"
      "list_all (\<lambda>t. t \<noteq> [] \<and> hd t \<noteq> CHR ''@'') lts"
    and ops: "openParens c = Some ops" "ops \<noteq> []" "''@'' \<notin> set ops"
    and cps: "closeParens c = Some cps" "cps \<noteq> []" "''@'' \<notin> set cps"
    and r: "indentRegex c = Some r" "\<And>p s. ms r (p, squote # s) = []"
    and k: "quoted_key k"
  shows "getNextToken T (CHR ''@'' # squote # k @ [squote]) prev =
           Inr (Some \<lparr>type = PLACEHOLDER, value = CHR ''@'' # squote # k @ [squote],
                       key = Some (unescape squote k), position = None\<rparr>)"
proof -
  let ?P = "alts (map (\<lambda>t. case patterns t of None \<Rightarrow> Eps | Some r \<Rightarrow> r) sts)"
  let ?body = "squote # k @ [squote]"
  let ?in = "CHR ''@'' # ?body"
  from nts(2) have ne: "nts \<noteq> []" by auto
  from sts(2) have sne: "sts \<noteq> []" by auto
  have pre: "list_all (\<lambda>t. t = ''@'' \<or> take (length t) ?in \<noteq> t) nts"
    using nts(3) not_prefix_at[of _ ?body] by (auto simp: list_all_iff)
  from k have "unterminated [squote, bslash] k" by (simp add: quoted_key_def)
  from quoted_closed[OF _ _ _ this, of squote squote "Some CHR ''@''"] obtain xs where
    q: "ms (quoted (chr squote) [squote, bslash] squote) (Some CHR ''@'', ?body)
          = (Some squote, []) # xs"
    by (auto simp: squote_def bslash_def)
  from alts_first_known[OF _ q sts(3) sts(2)] obtain ys where
    "ms ?P (Some CHR ''@'', ?body) = (Some squote, []) # ys" by auto
  then have "ms ?P (Some (last ''@''), drop (length ''@'') ?in) = (Some squote, []) # ys"
    by simp
  from prefix_alts_first[OF this _ _ pre nts(2), of None] obtain zs where
    "ms (Seq (alts (map lit nts)) ?P) (None, ?in) = (Some squote, []) # zs"
    by auto
  then have "exec \<lparr>pat = Seq (alts (map lit nts)) ?P, wordBoundary = False\<rparr> ?in = Some ?in"
    by (intro exec_head) simp_all
  then have sn: "getStringNamedPlaceholderToken T ?in =
      Inr (Some \<lparr>type = PLACEHOLDER, value = ?in,
                  key = Some (unescape squote k), position = None\<rparr>)"
    using getEscapedPlaceholderKey_unescape[of squote k] quoted_key_slices[of k]
    by (simp add: getStringNamedPlaceholderToken_def getPlaceholderTokenWithKey_def
        constructor_string_named[OF T nts(1) ne sts(1)]
        getTokenOnFirstMatch_def squote_def bslash_def)
  have w: "getWhitespaceToken T ?in = None"
    using whitespace_none[of "CHR ''@''" ?body]
    by (simp add: getWhitespaceToken_def constructor_fixed[OF T] first_match_None
        space_chars_def)
  have b: "getBlockCommentToken T ?in = None"
    using block_comment_none[of "CHR ''@''" ?body]
    by (simp add: getBlockCommentToken_def constructor_fixed[OF T] first_match_None)
  have "ms ?P (None, ?in) = []"
    by (rule string_alts_other[OF _ sts(3) sne])
       (simp add: btick_def dquote_def squote_def)
  then have s: "getStringToken T ?in = None"
    by (simp add: getStringToken_def constructor_string[OF T sts(1)] first_match_None
        exec_no_start)
  have "ms (Seq (alts (map lit lts)) (Seq (Lazy dot) (Alt (chr newline) Eoi))) (None, ?in) = []"
    using lts(3) not_prefix_at[of _ ?body]
    by (intro prefix_alts_none[OF lts(2)]) (auto simp: list_all_iff)
  then have lc: "getLineCommentToken T ?in = None"
    by (simp add: getLineCommentToken_def constructor_lists(1)[OF T lts(1)] first_match_None
        exec_no_start)
  have op: "getOpenParenToken T ?in = None"
    using parens_at[OF ops(2) ops(3), of ?body]
    by (simp add: getOpenParenToken_def constructor_lists(2)[OF T ops(1)] first_match_None
        exec_no_start)
  have cl: "getCloseParenToken T ?in = None"
    using parens_at[OF cps(2) cps(3), of ?body]
    by (simp add: getCloseParenToken_def constructor_lists(3)[OF T cps(1)] first_match_None
        exec_no_start)
  have "ms (Seq (alts (map lit nts)) r) (None, ?in) = []"
    using nts(3) not_prefix_at[of _ ?body] r(2)
    by (intro prefix_alts_none[OF ne]) (auto simp: list_all_iff)
  then have idn: "getIdentNamedPlaceholderToken T ?in = Inr None"
    by (simp add: getIdentNamedPlaceholderToken_def getPlaceholderTokenWithKey_def
        constructor_lists(4)[OF T nts(1) ne r(1)] getTokenOnFirstMatch_def exec_no_start)
  show ?thesis
    by (simp add: getNextToken_def getCommentToken_def getPlaceholderToken_def w b s sn
        lc op cl idn)
qed


lemma placeholders_disabled:
  assumes "constructor c = Inr T"
  shows "indexedPlaceholderTypes c = None \<or> indexedPlaceholderTypes c = Some [] \<Longrightarrow>
           getIndexedPlaceholderToken T input = Inr None"
    and "namedPlaceholderTypes c = None \<or> namedPlaceholderTypes c = Some [] \<Longrightarrow>
           getIdentNamedPlaceholderToken T input = Inr None
           \<and> getStringNamedPlaceholderToken T input = Inr None"
  using assms unfolding constructor_Inr
  by (auto simp: placeholder_defs getPlaceholderTokenWithKey_def getTokenOnFirstMatch_def
      createPlaceholderRegex_def)

section \<open>Some classifier reads a character\<close>

lemma consuming_shorter:
  "consuming r \<Longrightarrow> x \<in> set (ms r st) \<Longrightarrow> length (snd x) < length (snd st)"
proof (induction r arbitrary: x st)
  case (Cls pos cs)
  then show ?case by (cases st) (auto split: list.splits if_splits)
next
  case (Seq a b)
  from Seq.prems(2) obtain y where y: "y \<in> set (ms a st)" and x: "x \<in> set (ms b y)"
    by (auto simp: ms.simps(3))
  from Seq.prems(1) have "consuming a \<or> consuming b" by simp
  then show ?case
  proof
    assume "consuming a"
    from Seq.IH(1)[OF this y] ms_length[OF x] show ?thesis by simp
  next
    assume "consuming b"
    from Seq.IH(2)[OF this x] ms_length[OF y] show ?thesis by simp
  qed
next
  case (Alt a b)
  from Alt.prems(1) have ca: "consuming a" and cb: "consuming b" by simp_all
  from Alt.prems(2) have "x \<in> set (ms a st) \<or> x \<in> set (ms b st)" by simp
  then show ?case
  proof
    assume "x \<in> set (ms a st)"
    from Alt.IH(1)[OF ca this] show ?thesis .
  next
    assume "x \<in> set (ms b st)"
    from Alt.IH(2)[OF cb this] show ?thesis .
  qed
qed simp_all

lemma exec_consuming:
  assumes "exec rx input = Some v" and "consuming (pat rx)"
  shows "v \<noteq> []"
proof -
  from assms(1) obtain st xs where
    f: "filter (\<lambda>st. if wordBoundary rx then at_boundary st else True)
          (ms (pat rx) (None, input)) = st # xs"
    and v: "v = take (length input - length (snd st)) input"
    by (auto simp: exec_def split: list.splits)
  have "st \<in> set (filter (\<lambda>st. if wordBoundary rx then at_boundary st else True)
          (ms (pat rx) (None, input)))"
    unfolding f by simp
  then have st: "st \<in> set (ms (pat rx) (None, input))" by simp
  from consuming_shorter[OF assms(2) st] have "length (snd st) < length input" by simp
  with v show ?thesis by auto
qed

lemma consuming_fixed: "consuming (pat whitespace_regex)" "consuming (pat operator_regex)"
  by (simp_all add: whitespace_regex_def operator_regex_def rplus_def white_def dot_def chr_def)

lemma some_classifier_consumes:
  assumes "constructor c = Inr T" and "input \<noteq> []"
  shows "(\<exists>t. getWhitespaceToken T input = Some t \<and> value t \<noteq> [])
       \<or> (\<exists>t. getOperatorToken T input = Some t \<and> value t \<noteq> [])"
proof -
  from assms(2) obtain ch s where cs: "input = ch # s" by (cases input) auto
  show ?thesis
  proof (cases "ch \<in> set space_chars")
    case True
    from whitespace_matches[OF True, of s] obtain v where v: "exec whitespace_regex input = Some v"
      by (auto simp: cs)
    from exec_consuming[OF v consuming_fixed(1)] v show ?thesis
      by (simp add: getWhitespaceToken_def constructor_fixed[OF assms(1)] getTokenOnFirstMatch_def)
  next
    case False
    then have "ch \<noteq> CHR 0x0A" "ch \<noteq> CHR 0x0D" by (auto simp: space_chars_def)
    from operator_matches[OF this, of s] obtain v where v: "exec operator_regex input = Some v"
      by (auto simp: cs)
    from exec_consuming[OF v consuming_fixed(2)] v show ?thesis
      by (simp add: getOperatorToken_def constructor_fixed[OF assms(1)] getTokenOnFirstMatch_def)
  qed
qed

section \<open>The sample dialect\<close>

lemma plain_sample: "plain_cfg sampleConfig"
  by code_simp

lemma sample_line_comment:
  "case constructor sampleConfig of Inl e \<Rightarrow> False | Inr T \<Rightarrow>
     getLineCommentToken T ''/* ab'' = None \<and>
     getLineCommentToken T [squote, CHR ''a'', CHR ''b''] = None \<and>
     getLineCommentToken T [CHR ''@'', squote, CHR ''a'', bslash, squote, CHR ''b'', squote] = None"
  by code_simp

section \<open>The loop on a token of length zero\<close>

text \<open>
  \<open>getNextToken\<close> reads the previous token only to compare its value with \<^verbatim>\<open>.\<close>, so two
  previous tokens decide every case.
\<close>

lemma getNextToken_prev:
  "getNextToken T input prev =
     getNextToken T input
       (if (case prev of None \<Rightarrow> False | Some p \<Rightarrow> value p = ''.'') then Some dot_token else None)"
  by (simp add: getNextToken_def getReservedWordToken_def dot_token_def)

lemma sample_a:
  "case constructor sampleConfig of Inl e \<Rightarrow> False | Inr T \<Rightarrow>
     getNextToken T ''a'' None = Inr (Some \<lparr>type = WORD, value = [], key = None, position = None\<rparr>) \<and>
     getNextToken T ''a'' (Some dot_token) = Inr (Some \<lparr>type = WORD, value = [], key = None, position = None\<rparr>)"
  by code_simp

lemma sample_a_next:
  "getNextToken sampleTokenizer ''a'' prev = Inr (Some \<lparr>type = WORD, value = [], key = None, position = None\<rparr>)"
  using sample_a by (subst getNextToken_prev) (simp add: constructor_sample)

lemma loop_stuck:
  assumes "input \<noteq> []"
    and "\<And>prev. \<exists>t. getNextToken T input prev = Inr (Some t) \<and> value t = []"
  shows "tokenize_loop n T input tok p toks = None"
proof (induction n arbitrary: tok p toks)
  case 0
  then show ?case by simp
next
  case (Suc n)
  from assms(2)[of tok] obtain t where "getNextToken T input tok = Inr (Some t)" "value t = []"
    by blast
  with assms(1) Suc.IH show ?case by (simp add: Let_def)
qed


lemma sample_select:
  "case constructor sampleConfig of Inl e \<Rightarrow> False | Inr T \<Rightarrow>
     getNextToken T ''SELECT a'' None = Inr (Some selectToken) \<and>
     getNextToken T '' a'' None
       = Inr (Some \<lparr>type = WHITESPACE, value = '' '', key = None, position = None\<rparr>) \<and>
     getNextToken T '' a'' (Some dot_token)
       = Inr (Some \<lparr>type = WHITESPACE, value = '' '', key = None, position = None\<rparr>)"
  by code_simp

lemma sample_t:
  "case constructor sampleConfig of Inl e \<Rightarrow> False | Inr T \<Rightarrow>
     getNextToken T ''t.from'' None = Inr (Some \<lparr>type = WORD, value = [], key = None, position = None\<rparr>) \<and>
     getNextToken T ''t.from'' (Some dot_token) = Inr (Some \<lparr>type = WORD, value = [], key = None, position = None\<rparr>)"
  by code_simp

lemma sample_dot_from_diverges: "\<forall>n. run n sampleConfig ''t.from'' = None"
proof -
  have "\<And>prev. getNextToken sampleTokenizer ''t.from'' prev
      = Inr (Some \<lparr>type = WORD, value = [], key = None, position = None\<rparr>)"
    using sample_t by (subst getNextToken_prev) (simp add: constructor_sample)
  then show ?thesis
    by (simp add: run_def constructor_sample tokenize_def loop_stuck)
qed


lemma tokenize_covers_input:
  assumes "tokenize n T input = Some (Inr toks)"
  shows "concat (map value toks) = input \<and> covers 0 toks (length input)"
  using tokenize_loop_invariant[of n T input None 0 "[]" toks] assms
  by (simp add: tokenize_def)

text \<open>
  The statement of claim C9, \<^verbatim>\<open>SELECT a, b FROM t WHERE a > 1\<close>, on the sample dialect:
  the loop stops advancing at the first identifier, so \<^verbatim>\<open>tokenize\<close> hands no token
  sequence to the parser.
\<close>

lemma sample_statement:
  "case constructor sampleConfig of Inl e \<Rightarrow> False | Inr T \<Rightarrow>
     getNextToken T ''SELECT a, b FROM t WHERE a > 1'' None = Inr (Some selectToken) \<and>
     getNextToken T '' a, b FROM t WHERE a > 1'' None
       = Inr (Some \<lparr>type = WHITESPACE, value = '' '', key = None, position = None\<rparr>) \<and>
     getNextToken T '' a, b FROM t WHERE a > 1'' (Some dot_token)
       = Inr (Some \<lparr>type = WHITESPACE, value = '' '', key = None, position = None\<rparr>) \<and>
     getNextToken T ''a, b FROM t WHERE a > 1'' None = Inr (Some (zeroToken WORD)) \<and>
     getNextToken T ''a, b FROM t WHERE a > 1'' (Some dot_token) = Inr (Some (zeroToken WORD))"
  by code_simp

lemma select_statement_not_tokenized:
  "run n sampleConfig ''SELECT a, b FROM t WHERE a > 1'' = None"
proof -
  have s1: "getNextToken sampleTokenizer ''SELECT a, b FROM t WHERE a > 1'' None
      = Inr (Some selectToken)"
    using sample_statement by (simp add: constructor_sample)
  have s2: "\<And>prev. getNextToken sampleTokenizer '' a, b FROM t WHERE a > 1'' prev
       = Inr (Some \<lparr>type = WHITESPACE, value = '' '', key = None, position = None\<rparr>)"
    using sample_statement by (subst getNextToken_prev) (simp add: constructor_sample)
  have s3: "\<And>prev. getNextToken sampleTokenizer ''a, b FROM t WHERE a > 1'' prev
       = Inr (Some (zeroToken WORD))"
    using sample_statement by (subst getNextToken_prev) (simp add: constructor_sample)
  have stuck: "\<And>m tok p toks.
      tokenize_loop m sampleTokenizer ''a, b FROM t WHERE a > 1'' tok p toks = None"
    by (rule loop_stuck) (simp_all add: s3 zeroToken_def)
  have "tokenize_loop n sampleTokenizer ''SELECT a, b FROM t WHERE a > 1'' None 0 [] = None"
  proof (cases n)
    case 0
    then show ?thesis by simp
  next
    case (Suc n1)
    show ?thesis
    proof (cases n1)
      case 0
      with Suc show ?thesis by (simp add: s1 selectToken_def)
    next
      case (Suc n2)
      with \<open>n = Suc n1\<close> show ?thesis
        by (simp add: s1 s2 selectToken_def stuck)
    qed
  qed
  then show ?thesis
    by (simp add: run_def constructor_sample tokenize_def)
qed


text \<open>
  C2. The claim: \<^verbatim>\<open>tokenize\<close> terminates, because on a non-empty rest some classifier
  matches at least one character and each step advances by the matched length. Some
  classifier does read a character (\<open>some_classifier_consumes\<close>), and each step advances
  by the length of its token, but the first classifier to answer may have read nothing. On
  the sample dialect, which sets no \<^verbatim>\<open>wordChars\<close>, the word pattern is \<^verbatim>\<open>^()\<close>: on the input
  \<^verbatim>\<open>a\<close> the word classifier answers before the operator classifier, with a token of
  length zero, the step advances by that length, and no number of iterations ends the
  loop.
\<close>

theorem tokenize_does_not_terminate:
  "getNextToken sampleTokenizer ''a'' None
     = Inr (Some \<lparr>type = WORD, value = [], key = None, position = None\<rparr>)
   \<and> (\<forall>n. run n sampleConfig ''a'' = None)"
  by (simp add: run_def constructor_sample tokenize_def loop_stuck sample_a_next)

section \<open>Malformed constructs\<close>

text \<open>
  What the code does with constructs that never close. For a tokenizer built by the
  constructor, \<^verbatim>\<open>tokenize\<close> never stops on the \<^verbatim>\<open>TypeError\<close> of a missing token: whitespace
  and operator patterns together accept every first character. When the line-comment
  classifier does not match the input, a block comment that never closes (\<^verbatim>\<open>/*\<close> followed
  by text without \<^verbatim>\<open>*/\<close>) is one block-comment token over the whole input; and, in a
  dialect whose string types are all in the table and include the quote \<open>q\<close> (single or
  double), a string that never closes, in which every backslash escapes a character that
  is not a line terminator, is one string token over the whole input.
\<close>

lemma unterminated_degrades:
  assumes "plain_cfg c" and "constructor c = Inr T" and "getLineCommentToken T input = None"
  shows "tokenize m T other \<noteq> Some (Inl TypeError)
    \<and> (input = ''/*'' @ rest \<and> \<not> has_close rest \<longrightarrow>
         tokenize (Suc (Suc n)) T input =
           Some (Inr [\<lparr>type = BLOCK_COMMENT, value = input, key = None,
                       position = Some (0, length input)\<rparr>]))
    \<and> ((q = squote \<or> q = dquote) \<and> stringTypes c = Some sts
         \<and> list_all (\<lambda>t. patterns t \<noteq> None) sts \<and> [q, q] \<in> set sts
         \<and> input = q # body \<and> unterminated [q, bslash] body \<longrightarrow>
         tokenize (Suc (Suc n)) T input =
           Some (Inr [\<lparr>type = STRING, value = input, key = None,
                       position = Some (0, length input)\<rparr>]))"
proof (intro conjI impI)
  show "tokenize m T other \<noteq> Some (Inl TypeError)"
    unfolding tokenize_def
    by (rule tokenize_loop_no_TypeError) (rule constructor_fixed[OF assms(2)])+
next
  assume a: "input = ''/*'' @ rest \<and> \<not> has_close rest"
  then have cb: "comment_body rest = rest" by (simp add: comment_body_unterminated)
  from a assms(3) have "getNextToken T input None =
      Inr (Some \<lparr>type = BLOCK_COMMENT, value = input, key = None, position = None\<rparr>)"
    using block_comment_next[OF assms(2), of rest None] by (simp add: cb)
  from tokenize_single[OF this, of n] a show "tokenize (Suc (Suc n)) T input =
           Some (Inr [\<lparr>type = BLOCK_COMMENT, value = input, key = None,
                       position = Some (0, length input)\<rparr>])"
    by simp
next
  assume a: "(q = squote \<or> q = dquote) \<and> stringTypes c = Some sts
         \<and> list_all (\<lambda>t. patterns t \<noteq> None) sts \<and> [q, q] \<in> set sts
         \<and> input = q # body \<and> unterminated [q, bslash] body"
  with assms(3) have "getNextToken T input None =
      Inr (Some \<lparr>type = STRING, value = input, key = None, position = None\<rparr>)"
    using string_next[OF assms(2), of q body sts None] by simp
  from tokenize_single[OF this, of n] a show "tokenize (Suc (Suc n)) T input =
           Some (Inr [\<lparr>type = STRING, value = input, key = None,
                       position = Some (0, length input)\<rparr>])"
    by simp
qed

text \<open>The lemma at the sample dialect, on \<^verbatim>\<open>/* ab\<close> and on \<^verbatim>\<open>'ab\<close>.\<close>

lemma unterminated_degrades_sample:
  "plain_cfg sampleConfig \<and> constructor sampleConfig = Inr sampleTokenizer
   \<and> getLineCommentToken sampleTokenizer ''/* ab'' = None
   \<and> \<not> has_close '' ab''
   \<and> tokenize 2 sampleTokenizer ''/* ab'' =
        Some (Inr [\<lparr>type = BLOCK_COMMENT, value = ''/* ab'', key = None, position = Some (0, 5)\<rparr>])
   \<and> getLineCommentToken sampleTokenizer [squote, CHR ''a'', CHR ''b''] = None
   \<and> stringTypes sampleConfig
        = Some [[dquote, dquote], [CHR ''N'', squote, squote], [squote, squote], [btick, btick]]
   \<and> unterminated [squote, bslash] ''ab''
   \<and> tokenize 2 sampleTokenizer [squote, CHR ''a'', CHR ''b''] =
        Some (Inr [\<lparr>type = STRING, value = [squote, CHR ''a'', CHR ''b''], key = None,
                    position = Some (0, 3)\<rparr>])
   \<and> tokenize 7 sampleTokenizer ''a'' \<noteq> Some (Inl TypeError)"
proof -
  have l1: "getLineCommentToken sampleTokenizer ''/* ab'' = None"
    and l2: "getLineCommentToken sampleTokenizer [squote, CHR ''a'', CHR ''b''] = None"
    using sample_line_comment by (simp_all add: constructor_sample)
  have st: "stringTypes sampleConfig
        = Some [[dquote, dquote], [CHR ''N'', squote, squote], [squote, squote], [btick, btick]]"
    by (simp add: sampleConfig_def)
  have known: "list_all (\<lambda>t. patterns t \<noteq> None)
        [[dquote, dquote], [CHR ''N'', squote, squote], [squote, squote], [btick, btick]]"
    by (simp add: patterns_def)
  have u: "unterminated [squote, bslash] ''ab''"
    by (simp add: squote_def bslash_def)
  have h: "\<not> has_close '' ab''" by simp
  from unterminated_degrades[OF plain_sample constructor_sample l1,
      of 7 "''a''" "'' ab''" 0 squote "[]" "[]"] h
  have b: "tokenize 2 sampleTokenizer ''/* ab'' =
        Some (Inr [\<lparr>type = BLOCK_COMMENT, value = ''/* ab'', key = None, position = Some (0, 5)\<rparr>])"
    and e: "tokenize 7 sampleTokenizer ''a'' \<noteq> Some (Inl TypeError)"
    by (simp_all add: numeral_2_eq_2)
  from unterminated_degrades[OF plain_sample constructor_sample l2,
      of 7 "''a''" "[]" 0 squote
         "[[dquote, dquote], [CHR ''N'', squote, squote], [squote, squote], [btick, btick]]" "''ab''"]
    st known u
  have s: "tokenize 2 sampleTokenizer [squote, CHR ''a'', CHR ''b''] =
        Some (Inr [\<lparr>type = STRING, value = [squote, CHR ''a'', CHR ''b''], key = None,
                    position = Some (0, 3)\<rparr>])"
    by (simp add: numeral_2_eq_2)
  from plain_sample constructor_sample l1 l2 st u h b e s show ?thesis by simp
qed

text \<open>
  C6. The claim: \<^verbatim>\<open>tokenize\<close> never raises an error for any input; a malformed construct
  such as an unterminated quoted string degrades to a single token of its type that
  extends to the end of the input. On the sample dialect:

  \<^item> the string-named placeholder \<^verbatim>\<open>@'a(\<close> never closes, so the pattern's \<^verbatim>\<open>$\<close> ends it
    and its last character \<^verbatim>\<open>(\<close> reaches \<^verbatim>\<open>getEscapedPlaceholderKey\<close> as \<^verbatim>\<open>quoteChar\<close>;
    the pattern source is an escaped backslash and an opening parenthesis, \<^verbatim>\<open>new RegExp\<close>
    throws a \<^verbatim>\<open>SyntaxError\<close>, and \<^verbatim>\<open>tokenize\<close> raises it;
  \<^item> in the three characters quote, \<^verbatim>\<open>a\<close>, backslash, the backslash has no character to
    escape and is not the end of the input, so the string classifier does not match at
    all; with the word characters \<^verbatim>\<open>@\<close> and \<^verbatim>\<open>#\<close> the input becomes three operator
    tokens.
\<close>

theorem tokenize_raises_SyntaxError:
  "run 1 sampleConfig [CHR ''@'', squote, CHR ''a'', CHR ''(''] = Some (Inl SyntaxError)
   \<and> getStringToken sampleTokenizer [squote, CHR ''a'', bslash] = None
   \<and> run 4 wordCharsConfig [squote, CHR ''a'', bslash] =
       Some (Inr [\<lparr>type = OPERATOR, value = [squote], key = None, position = Some (0, 1)\<rparr>,
                  \<lparr>type = OPERATOR, value = ''a'', key = None, position = Some (1, 2)\<rparr>,
                  \<lparr>type = OPERATOR, value = [bslash], key = None, position = Some (2, 3)\<rparr>])"
  by code_simp

section \<open>Block comments and the dialect\<close>

text \<open>
  C10, as the code has it. The block-comment pattern is the same for every dialect, and on
  an input that begins with \<^verbatim>\<open>/*\<close> the next token is the block comment (up to the first
  \<^verbatim>\<open>*/\<close>, or to the end) whenever the line-comment classifier, which is asked first, does
  not match that input; it is then the first token of whatever \<^verbatim>\<open>tokenize\<close> returns.
\<close>

theorem block_comment_unless_line_comment:
  assumes "plain_cfg c" and "constructor c = Inr T"
    and "getLineCommentToken T (''/*'' @ rest) = None"
  shows "BLOCK_COMMENT_REGEX T = Some block_comment_regex
    \<and> getNextToken T (''/*'' @ rest) prev =
        Inr (Some \<lparr>type = BLOCK_COMMENT, value = ''/*'' @ comment_body rest, key = None,
                    position = None\<rparr>)
    \<and> (tokenize n T (''/*'' @ rest) = Some (Inr toks) \<longrightarrow>
         (\<exists>more. toks = \<lparr>type = BLOCK_COMMENT, value = ''/*'' @ comment_body rest, key = None,
                           position = Some (0, 2 + length (comment_body rest))\<rparr> # more))"
proof (intro conjI impI)
  show "BLOCK_COMMENT_REGEX T = Some block_comment_regex"
    by (rule constructor_fixed[OF assms(2)])
next
  show "getNextToken T (''/*'' @ rest) prev =
        Inr (Some \<lparr>type = BLOCK_COMMENT, value = ''/*'' @ comment_body rest, key = None,
                    position = None\<rparr>)"
    by (rule block_comment_next[OF assms(2,3)])
next
  assume t: "tokenize n T (''/*'' @ rest) = Some (Inr toks)"
  from tokenize_first[OF t _ block_comment_next[OF assms(2,3), of None]]
  show "\<exists>more. toks = \<lparr>type = BLOCK_COMMENT, value = ''/*'' @ comment_body rest, key = None,
                           position = Some (0, 2 + length (comment_body rest))\<rparr> # more"
    by simp
qed

lemma sample_block_comment:
  "case constructor sampleConfig of Inl e \<Rightarrow> False | Inr T \<Rightarrow>
     getLineCommentToken T ''/* ab */ '' = None \<and>
     tokenize 3 T ''/* ab */ '' =
       Some (Inr [\<lparr>type = BLOCK_COMMENT, value = ''/* ab */'', key = None, position = Some (0, 8)\<rparr>,
                  \<lparr>type = WHITESPACE, value = '' '', key = None, position = Some (8, 9)\<rparr>])"
  by code_simp


text \<open>The theorem at the sample dialect, on a comment followed by a space.\<close>

theorem block_comment_unless_line_comment_witness:
  "plain_cfg sampleConfig \<and> constructor sampleConfig = Inr sampleTokenizer
   \<and> getLineCommentToken sampleTokenizer ''/* ab */ '' = None
   \<and> getNextToken sampleTokenizer ''/* ab */ '' None =
        Inr (Some \<lparr>type = BLOCK_COMMENT, value = ''/* ab */'', key = None, position = None\<rparr>)
   \<and> tokenize 3 sampleTokenizer ''/* ab */ '' =
       Some (Inr [\<lparr>type = BLOCK_COMMENT, value = ''/* ab */'', key = None, position = Some (0, 8)\<rparr>,
                  \<lparr>type = WHITESPACE, value = '' '', key = None, position = Some (8, 9)\<rparr>])"
proof -
  have l: "getLineCommentToken sampleTokenizer (''/*'' @ '' ab */ '') = None"
    and t: "tokenize 3 sampleTokenizer ''/* ab */ '' =
       Some (Inr [\<lparr>type = BLOCK_COMMENT, value = ''/* ab */'', key = None, position = Some (0, 8)\<rparr>,
                  \<lparr>type = WHITESPACE, value = '' '', key = None, position = Some (8, 9)\<rparr>])"
    using sample_block_comment by (simp_all add: constructor_sample)
  from block_comment_unless_line_comment[OF plain_sample constructor_sample l, of None 3]
  have "getNextToken sampleTokenizer ''/* ab */ '' None =
        Inr (Some \<lparr>type = BLOCK_COMMENT, value = ''/* ab */'', key = None, position = None\<rparr>)"
    by simp
  with plain_sample constructor_sample l t show ?thesis by simp
qed

text \<open>
  The claim as stated fails where the line-comment classifier, which is asked first,
  matches: in a dialect with the line-comment prefix \<^verbatim>\<open>/\<close> the input \<^verbatim>\<open>/* ab */\<close> is one
  line-comment token.
\<close>

theorem block_comment_counterexample:
  "run 2 slashCommentConfig ''/* ab */'' =
     Some (Inr [\<lparr>type = LINE_COMMENT, value = ''/* ab */'', key = None,
                 position = Some (0, 8)\<rparr>])"
  by code_simp

text \<open>
  So it is in a dialect with an empty list of prefixes, whose line-comment pattern begins
  with the empty alternative (see C7).
\<close>

lemma block_comment_with_no_prefix:
  "run 2 noLineCommentConfig ''/* ab */'' =
     Some (Inr [\<lparr>type = LINE_COMMENT, value = ''/* ab */'', key = None,
                 position = Some (0, 8)\<rparr>])"
  by code_simp

section \<open>The key of a string-named placeholder\<close>

text \<open>
  C5. Take a dialect with the named-placeholder prefix \<^verbatim>\<open>@\<close> and single-quoted strings among
  its string types, in which nothing asked before the string-named placeholder reads an
  input that begins with \<^verbatim>\<open>@\<close> and a quote: it has line-comment prefixes, open parens and close
  parens, none of the prefixes begins with \<^verbatim>\<open>@\<close> and no paren is \<^verbatim>\<open>@\<close>; no other
  named-placeholder prefix begins with \<^verbatim>\<open>@\<close>; every string type is in the table; and the
  identifier pattern matches no text that begins with a quote. There, for every key \<open>k\<close> in
  which quotes and backslashes are escaped (\<open>quoted_key\<close>), tokenizing \<^verbatim>\<open>@\<close>, quote, \<open>k\<close>, quote
  gives one placeholder token over the whole input, and its key is \<open>k\<close> with every
  backslash-quote pair decoded to a quote (\<open>unescape\<close>). For \<open>k\<close> the text \<^verbatim>\<open>a\<close>, backslash,
  quote, \<^verbatim>\<open>b\<close> the key is \<^verbatim>\<open>a\<close>, quote, \<^verbatim>\<open>b\<close>.
\<close>

theorem string_named_placeholder_key:
  assumes "plain_cfg c" and "constructor c = Inr T"
    and "namedPlaceholderTypes c = Some nts" and "''@'' \<in> set nts"
    and "list_all (\<lambda>t. t = ''@'' \<or> (t \<noteq> [] \<and> hd t \<noteq> CHR ''@'')) nts"
    and "stringTypes c = Some sts" and "[squote, squote] \<in> set sts"
    and "list_all (\<lambda>t. patterns t \<noteq> None) sts"
    and "lineCommentTypes c = Some lts" and "lts \<noteq> []"
    and "list_all (\<lambda>t. t \<noteq> [] \<and> hd t \<noteq> CHR ''@'') lts"
    and "openParens c = Some ops" and "ops \<noteq> []" and "''@'' \<notin> set ops"
    and "closeParens c = Some cps" and "cps \<noteq> []" and "''@'' \<notin> set cps"
    and "indentRegex c = Some r" and "\<And>p s. ms r (p, squote # s) = []"
    and "quoted_key k"
  shows "tokenize (Suc (Suc n)) T (CHR ''@'' # squote # k @ [squote]) =
           Some (Inr [\<lparr>type = PLACEHOLDER, value = CHR ''@'' # squote # k @ [squote],
                       key = Some (unescape squote k), position = Some (0, length k + 3)\<rparr>])"
proof -
  have "getNextToken T (CHR ''@'' # squote # k @ [squote]) None =
           Inr (Some \<lparr>type = PLACEHOLDER, value = CHR ''@'' # squote # k @ [squote],
                       key = Some (unescape squote k), position = None\<rparr>)"
    by (rule string_named_placeholder_next[OF assms(2-20)])
  from tokenize_single[OF this, of n] show ?thesis by simp
qed

text \<open>The theorem at the sample dialect, on the placeholder of the claim.\<close>

theorem string_named_placeholder_key_witness:
  "plain_cfg sampleConfig \<and> constructor sampleConfig = Inr sampleTokenizer
   \<and> namedPlaceholderTypes sampleConfig = Some [''@'', '':'']
   \<and> stringTypes sampleConfig
        = Some [[dquote, dquote], [CHR ''N'', squote, squote], [squote, squote], [btick, btick]]
   \<and> lineCommentTypes sampleConfig = Some [''#'', ''--'']
   \<and> openParens sampleConfig = Some [''('', ''CASE'']
   \<and> closeParens sampleConfig = Some ['')'', ''END'']
   \<and> (\<forall>p s. ms (rplus (Cls True
          ''abcdefghijklmnopqrstuvwxyzABCDEFGHIJKLMNOPQRSTUVWXYZ0123456789._$''))
          (p, squote # s) = [])
   \<and> quoted_key [CHR ''a'', bslash, squote, CHR ''b'']
   \<and> tokenize 2 sampleTokenizer quotedPlaceholder =
        Some (Inr [\<lparr>type = PLACEHOLDER, value = quotedPlaceholder,
                    key = Some [CHR ''a'', squote, CHR ''b''], position = Some (0, 7)\<rparr>])"
proof -
  let ?r = "rplus (Cls True
          ''abcdefghijklmnopqrstuvwxyzABCDEFGHIJKLMNOPQRSTUVWXYZ0123456789._$'')"
  have nt: "namedPlaceholderTypes sampleConfig = Some [''@'', '':'']"
    and st: "stringTypes sampleConfig
        = Some [[dquote, dquote], [CHR ''N'', squote, squote], [squote, squote], [btick, btick]]"
    and lt: "lineCommentTypes sampleConfig = Some [''#'', ''--'']"
    and op: "openParens sampleConfig = Some [''('', ''CASE'']"
    and cl: "closeParens sampleConfig = Some ['')'', ''END'']"
    and ir: "indentRegex sampleConfig = Some ?r"
    by (simp_all add: sampleConfig_def)
  have known: "list_all (\<lambda>t. patterns t \<noteq> None)
        [[dquote, dquote], [CHR ''N'', squote, squote], [squote, squote], [btick, btick]]"
    by (simp add: patterns_def)
  have r: "\<And>p s. ms ?r (p, squote # s) = []"
    by (simp add: rplus_def ms_step squote_def)
  have k: "quoted_key [CHR ''a'', bslash, squote, CHR ''b'']"
    by (simp add: quoted_key_def bslash_def squote_def)
  from string_named_placeholder_key[OF plain_sample constructor_sample nt _ _ st _ known
      lt _ _ op _ _ cl _ _ ir r k, of 0]
  have "tokenize 2 sampleTokenizer quotedPlaceholder =
        Some (Inr [\<lparr>type = PLACEHOLDER, value = quotedPlaceholder,
                    key = Some [CHR ''a'', squote, CHR ''b''], position = Some (0, 7)\<rparr>])"
    by (simp add: numeral_2_eq_2 bslash_def squote_def quotedPlaceholder_def)
  with plain_sample constructor_sample nt st lt op cl r k show ?thesis by simp
qed

text \<open>
  The claim as stated, for every dialect with the prefix \<^verbatim>\<open>@\<close> and single-quoted strings,
  fails where a classifier that is asked earlier reads the input: in a dialect whose
  line-comment prefix is \<^verbatim>\<open>@\<close> the placeholder of the claim is one line-comment token.
\<close>

theorem string_named_placeholder_counterexample:
  "namedPlaceholderTypes atCommentConfig = Some [''@'', '':'']
   \<and> stringTypes atCommentConfig
        = Some [[dquote, dquote], [CHR ''N'', squote, squote], [squote, squote], [btick, btick]]
   \<and> run 2 atCommentConfig quotedPlaceholder =
       Some (Inr [\<lparr>type = LINE_COMMENT, value = quotedPlaceholder, key = None,
                   position = Some (0, 7)\<rparr>])"
  by code_simp

text \<open>
  So it does where the identifier pattern reads quotes: the identifier-named placeholder is
  asked before the string-named one, and its key is the text after the prefix, quotes and
  backslash included.
\<close>

lemma identifier_pattern_reads_quoted_key:
  "run 2 quoteIdentConfig quotedPlaceholder =
     Some (Inr [\<lparr>type = PLACEHOLDER, value = quotedPlaceholder,
                 key = Some [squote, CHR ''a'', bslash, squote, CHR ''b'', squote],
                 position = Some (0, 7)\<rparr>])"
  by code_simp


section \<open>The priority order of the classifiers\<close>

text \<open>
  C4. \<^verbatim>\<open>getNextToken\<close> is the first answer, in this order, of: whitespace; line comment;
  block comment; quoted string; open paren; close paren; placeholder (identifier-named,
  string-named, indexed); number; reserved word (toplevel, newline, plain); word; operator.
  The reserved-word classifiers are in the list unless the previous token is \<^verbatim>\<open>.\<close>, the
  suppression the specification states with the same list (claim C3). An answer is any
  token, also one of length zero, and an exception thrown while a placeholder key is
  decoded ends the search.
\<close>

theorem getNextToken_priority_order:
  "getNextToken T input prev =
     firstMatch
       ([Inr (getWhitespaceToken T input),
         Inr (getLineCommentToken T input),
         Inr (getBlockCommentToken T input),
         Inr (getStringToken T input),
         Inr (getOpenParenToken T input),
         Inr (getCloseParenToken T input),
         getIdentNamedPlaceholderToken T input,
         getStringNamedPlaceholderToken T input,
         getIndexedPlaceholderToken T input,
         Inr (getNumberToken T input)]
        @ (if afterDot prev then []
           else [Inr (getToplevelReservedToken T input),
                 Inr (getNewlineReservedToken T input),
                 Inr (getPlainReservedToken T input)])
        @ [Inr (getWordToken T input),
           Inr (getOperatorToken T input)])"
proof (cases "afterDot prev")
  case True
  then have "getReservedWordToken T input prev = None"
    by (simp add: getReservedWordToken_def afterDot_def)
  with True show ?thesis
    by (simp add: getNextToken_def getCommentToken_def getPlaceholderToken_def
        firstMatch_Cons firstMatch_Nil orElseE_assoc orElseE_orElse orElseE_right_None)
next
  case False
  then have "getReservedWordToken T input prev =
      orElse (getToplevelReservedToken T input)
        (orElse (getNewlineReservedToken T input) (getPlainReservedToken T input))"
    by (simp add: getReservedWordToken_def afterDot_def)
  with False show ?thesis
    by (simp add: getNextToken_def getCommentToken_def getPlaceholderToken_def
        firstMatch_Cons firstMatch_Nil orElseE_assoc orElseE_orElse orElseE_right_None)
qed


section \<open>Coverage of the input\<close>

text \<open>
  C1. The claim: for every dialect and every input, \<^verbatim>\<open>tokenize\<close> returns a token sequence
  whose values concatenate to the input and whose position ranges follow one another over
  the whole input. Whatever \<^verbatim>\<open>tokenize\<close> returns is such a sequence
  (\<open>tokenize_covers_input\<close>), but on the sample dialect and the input \<^verbatim>\<open>SELECT a\<close> it
  returns nothing: after the reserved word and the space, the word classifier answers
  \<^verbatim>\<open>a\<close> with a token of length zero, for ever (the defect of C2).
\<close>

theorem tokenize_returns_nothing:
  "\<forall>n. run n sampleConfig ''SELECT a'' = None"
proof
  fix n
  have s1: "getNextToken sampleTokenizer ''SELECT a'' None = Inr (Some selectToken)"
    using sample_select by (simp add: constructor_sample)
  have s2: "\<And>prev. getNextToken sampleTokenizer '' a'' prev
       = Inr (Some \<lparr>type = WHITESPACE, value = '' '', key = None, position = None\<rparr>)"
    using sample_select by (subst getNextToken_prev) (simp add: constructor_sample)
  have stuck: "\<And>m tok p toks. tokenize_loop m sampleTokenizer ''a'' tok p toks = None"
    by (rule loop_stuck) (simp_all add: sample_a_next)
  have "tokenize_loop n sampleTokenizer ''SELECT a'' None 0 [] = None"
  proof (cases n)
    case 0
    then show ?thesis by simp
  next
    case (Suc n1)
    show ?thesis
    proof (cases n1)
      case 0
      with Suc show ?thesis by (simp add: s1 selectToken_def)
    next
      case (Suc n2)
      with \<open>n = Suc n1\<close> show ?thesis
        by (simp add: s1 s2 selectToken_def stuck)
    qed
  qed
  then show "run n sampleConfig ''SELECT a'' = None"
    by (simp add: run_def constructor_sample tokenize_def)
qed


section \<open>A word after a dot\<close>

text \<open>
  C3. The claim: where \<^verbatim>\<open>from\<close> is reserved, the word after a \<^verbatim>\<open>.\<close> token is a generic word
  token, not a reserved word. A reserved-word token never follows a \<^verbatim>\<open>.\<close>
  (\<open>no_reserved_after_dot\<close>), but no word token is made either: the word pattern is only
  the alternatives of \<^verbatim>\<open>wordChars\<close>. In the sample dialect with the word characters \<^verbatim>\<open>@\<close>
  and \<^verbatim>\<open>#\<close>, where \<^verbatim>\<open>from\<close> alone is a reserved word, \<^verbatim>\<open>t.from\<close> is six operator tokens of one
  character; with no word characters the loop never ends (\<open>sample_dot_from_diverges\<close>).
\<close>

theorem word_after_dot_is_not_a_word:
  "run 2 wordCharsConfig ''from'' =
     Some (Inr [\<lparr>type = RESERVED_TOPLEVEL, value = ''from'', key = None, position = Some (0, 4)\<rparr>])
   \<and> run 7 wordCharsConfig ''t.from'' =
     Some (Inr [\<lparr>type = OPERATOR, value = ''t'', key = None, position = Some (0, 1)\<rparr>,
                \<lparr>type = OPERATOR, value = ''.'', key = None, position = Some (1, 2)\<rparr>,
                \<lparr>type = OPERATOR, value = ''f'', key = None, position = Some (2, 3)\<rparr>,
                \<lparr>type = OPERATOR, value = ''r'', key = None, position = Some (3, 4)\<rparr>,
                \<lparr>type = OPERATOR, value = ''o'', key = None, position = Some (4, 5)\<rparr>,
                \<lparr>type = OPERATOR, value = ''m'', key = None, position = Some (5, 6)\<rparr>])"
  by code_simp


section \<open>Missing and empty lists\<close>

text \<open>
  C7. The claim: a missing or empty list disables its token class, construction succeeds
  and the classifier matches nothing. \<^verbatim>\<open>createPlaceholderRegex\<close> does so, by its
  \<^verbatim>\<open>isEmpty\<close> guard (\<open>placeholders_disabled\<close>); the other builders have no guard. A missing
  list of line-comment prefixes, reserved words, string types or parens makes the
  constructor throw; an empty list of line-comment prefixes gives a pattern that takes the
  rest of the line, so that \<^verbatim>\<open>SELECT 1\<close> is one line-comment token; an empty list of string
  types, reserved words, parens or word characters gives a pattern that matches the empty
  text, so the classifier answers with a token of length zero.
\<close>

theorem empty_list_does_not_disable:
  "constructor (sampleConfig\<lparr>lineCommentTypes := None\<rparr>) = Inl TypeError
   \<and> constructor (sampleConfig\<lparr>reservedWords := None\<rparr>) = Inl TypeError
   \<and> constructor (sampleConfig\<lparr>stringTypes := None\<rparr>) = Inl TypeError
   \<and> constructor (sampleConfig\<lparr>openParens := None\<rparr>) = Inl TypeError
   \<and> run 2 noLineCommentConfig ''SELECT 1'' =
        Some (Inr [\<lparr>type = LINE_COMMENT, value = ''SELECT 1'', key = None,
                    position = Some (0, 8)\<rparr>])
   \<and> (case constructor (sampleConfig\<lparr>stringTypes := Some []\<rparr>) of Inl e \<Rightarrow> False
       | Inr T \<Rightarrow> getStringToken T ''a'' = Some (zeroToken STRING))
   \<and> (case constructor (sampleConfig\<lparr>reservedWords := Some []\<rparr>) of Inl e \<Rightarrow> False
       | Inr T \<Rightarrow> getPlainReservedToken T ''a'' = Some (zeroToken RESERVED))
   \<and> (case constructor (sampleConfig\<lparr>openParens := Some []\<rparr>) of Inl e \<Rightarrow> False
       | Inr T \<Rightarrow> getOpenParenToken T ''a'' = Some (zeroToken OPEN_PAREN))
   \<and> (case constructor (sampleConfig\<lparr>wordChars := Some []\<rparr>) of Inl e \<Rightarrow> False
       | Inr T \<Rightarrow> getWordToken T ''a'' = Some (zeroToken WORD))"
  by code_simp

section \<open>Inconsistent settings\<close>





end
